theory Spec2Isabelle
  imports Main "HOL-Library.AList"
begin

section \<open>Photo records and the admin console's session state\<close>

text \<open>
  The admin console (\<^verbatim>\<open>js/admin.js\<close>) keeps one global \<^verbatim>\<open>state\<close> object. Its
  \<^verbatim>\<open>photos\<close> array holds the objects parsed from \<^verbatim>\<open>photos.json\<close>, \<^verbatim>\<open>dirty\<close> is an
  object used as a dictionary from photo id to an edited photo object, and
  \<^verbatim>\<open>pendingDeletes\<close> is an array of photo objects.

  A photo object is a JavaScript object whose properties are the thirteen written by
  the batch processor (\<^verbatim>\<open>scripts/process-photos.js\<close>). Any of them can be absent
  (\<^verbatim>\<open>undefined\<close>): the object \<^verbatim>\<open>{ ...{}, ...partial }\<close> that \<^verbatim>\<open>applyDraft\<close> builds for an
  unknown id has no \<^verbatim>\<open>id\<close> at all. Every field is therefore an option, \<open>None\<close> standing
  for an absent property.
\<close>

record photo =
  pid :: "string option"
  src :: "string option"
  thumb :: "string option"
  title :: "string option"
  description :: "string option"
  location :: "string option"
  date :: "string option"
  category :: "string option"
  tags :: "string list option"
  camera :: "string option"
  width :: "nat option"
  height :: "nat option"
  featured :: "bool option"

text \<open>The empty object \<^verbatim>\<open>{}\<close>.\<close>

definition empty_photo :: photo where
  "empty_photo =
     \<lparr>pid = None, src = None, thumb = None, title = None, description = None,
      location = None, date = None, category = None, tags = None, camera = None,
      width = None, height = None, featured = None\<rparr>"

text \<open>
  The argument of \<^verbatim>\<open>applyDraft\<close>. Its three callers build it from the edit form:
  \<^verbatim>\<open>autoSave\<close> passes \<^verbatim>\<open>{title, location, date, description, category, featured}\<close>,
  \<^verbatim>\<open>addTag\<close> and \<^verbatim>\<open>removeTag\<close> pass \<^verbatim>\<open>{tags}\<close>. No caller passes \<^verbatim>\<open>id\<close>, \<^verbatim>\<open>src\<close>,
  \<^verbatim>\<open>thumb\<close>, \<^verbatim>\<open>camera\<close>, \<^verbatim>\<open>width\<close> or \<^verbatim>\<open>height\<close>.
\<close>

record draft =
  d_title :: "string option"
  d_location :: "string option"
  d_date :: "string option"
  d_description :: "string option"
  d_category :: "string option"
  d_featured :: "bool option"
  d_tags :: "string list option"

text \<open>One property of \<^verbatim>\<open>{ ...base, ...partial }\<close>: the partial's value when it has one.\<close>

fun override :: "'a option \<Rightarrow> 'a option \<Rightarrow> 'a option" where
  "override b None = b"
| "override b (Some v) = Some v"

text \<open>The object spread \<^verbatim>\<open>{ ...base, ...partial }\<close> of \<^verbatim>\<open>applyDraft\<close>, for a photo object as base.\<close>

definition spread :: "photo \<Rightarrow> draft \<Rightarrow> photo" where
  "spread base partial =
     base\<lparr>title := override (title base) (d_title partial),
          location := override (location base) (d_location partial),
          date := override (date base) (d_date partial),
          description := override (description base) (d_description partial),
          category := override (category base) (d_category partial),
          featured := override (featured base) (d_featured partial),
          tags := override (tags base) (d_tags partial)\<rparr>"

subsection \<open>What a read of \<^verbatim>\<open>state.dirty\<close> can return\<close>

text \<open>
  \<^verbatim>\<open>state.dirty\<close> is a plain object (\<^verbatim>\<open>{}\<close>), so \<^verbatim>\<open>state.dirty[key]\<close> is looked up in the
  object and then along its prototype chain, which ends in \<^verbatim>\<open>Object.prototype\<close>. For a
  key that is no property of its own but names a member of \<^verbatim>\<open>Object.prototype\<close> the read
  returns that member, a function. The id \<^verbatim>\<open>constructor\<close>, which is the slug of a file
  \<^verbatim>\<open>constructor.jpg\<close>, is such a key. The value is truthy and not nullish, so both
  \<^verbatim>\<open>state.dirty[id] || ...\<close> and \<^verbatim>\<open>state.dirty[p.id] ?? p\<close> take it. It has none of the
  photo properties (\<^verbatim>\<open>Object.id\<close>, \<^verbatim>\<open>Object.src\<close>, ... are undefined) and no enumerable
  property of its own, so spreading it copies nothing; \<^verbatim>\<open>JSON.stringify\<close> writes a
  function inside an array as \<^verbatim>\<open>null\<close>.

  The member \<^verbatim>\<open>__proto__\<close> is an accessor. Reading \<^verbatim>\<open>state.dirty['__proto__']\<close> returns the
  prototype of \<^verbatim>\<open>state.dirty\<close>, and the assignment \<^verbatim>\<open>state.dirty['__proto__'] = obj\<close> of
  \<^verbatim>\<open>applyDraft\<close> stores no property: it makes \<^verbatim>\<open>obj\<close> the prototype. From then on
  \<^verbatim>\<open>state.dirty[key]\<close> also finds the properties of \<^verbatim>\<open>obj\<close>, so a read can return the value
  of a photo property: a string, a number, a boolean or an array of strings.

  Hence the elements of \<^verbatim>\<open>state.photos\<close>, of \<^verbatim>\<open>merged\<close> and of \<^verbatim>\<open>state.pendingDeletes\<close>
  are items: a photo object, the member of \<^verbatim>\<open>Object.prototype\<close> of some name
  (\<open>Builtin ''__proto__''\<close> is \<^verbatim>\<open>Object.prototype\<close> itself), or the value of a property.
\<close>

datatype jsval = Str string | Num nat | Bool bool | Arr "string list"

datatype item = Rec photo | Builtin string | Prim jsval

text \<open>The names that every plain object inherits from \<^verbatim>\<open>Object.prototype\<close>.\<close>

definition object_members :: "string list" where
  "object_members =
     [''constructor'', ''hasOwnProperty'', ''isPrototypeOf'', ''propertyIsEnumerable'',
      ''toLocaleString'', ''toString'', ''valueOf'', ''__defineGetter__'',
      ''__defineSetter__'', ''__lookupGetter__'', ''__lookupSetter__'', ''__proto__'']"

text \<open>
  \<^verbatim>\<open>x.id\<close>, \<^verbatim>\<open>x.src\<close> and \<^verbatim>\<open>x.thumb\<close> of an item; they are undefined for a function, for
  \<^verbatim>\<open>Object.prototype\<close> and for a string, a number, a boolean and an array.
\<close>

fun id_of :: "item \<Rightarrow> string option" where
  "id_of (Rec p) = pid p"
| "id_of (Builtin n) = None"
| "id_of (Prim x) = None"

fun src_of :: "item \<Rightarrow> string option" where
  "src_of (Rec p) = src p"
| "src_of (Builtin n) = None"
| "src_of (Prim x) = None"

fun thumb_of :: "item \<Rightarrow> string option" where
  "thumb_of (Rec p) = thumb p"
| "thumb_of (Builtin n) = None"
| "thumb_of (Prim x) = None"

text \<open>
  The photo properties that \<^verbatim>\<open>{ ...x }\<close> copies from an item. Spreading a string or an
  array copies its characters or elements under the keys \<^verbatim>\<open>0\<close>, \<^verbatim>\<open>1\<close>, ..., which are no
  photo properties.
\<close>

fun own_props :: "item \<Rightarrow> photo" where
  "own_props (Rec p) = p"
| "own_props (Builtin n) = empty_photo"
| "own_props (Prim x) = empty_photo"

text \<open>Whether an item is truthy, for \<^verbatim>\<open>||\<close>.\<close>

fun truthy_item :: "item \<Rightarrow> bool" where
  "truthy_item (Rec p) = True"
| "truthy_item (Builtin n) = True"
| "truthy_item (Prim (Str s)) = (s \<noteq> [])"
| "truthy_item (Prim (Num n)) = (n \<noteq> 0)"
| "truthy_item (Prim (Bool b)) = b"
| "truthy_item (Prim (Arr xs)) = True"

text \<open>The property of a photo object with the name \<open>k\<close>, if it has one.\<close>

definition field_of :: "string \<Rightarrow> photo \<Rightarrow> jsval option" where
  "field_of k p =
     (if k = ''id'' then map_option Str (pid p)
      else if k = ''src'' then map_option Str (src p)
      else if k = ''thumb'' then map_option Str (thumb p)
      else if k = ''title'' then map_option Str (title p)
      else if k = ''description'' then map_option Str (description p)
      else if k = ''location'' then map_option Str (location p)
      else if k = ''date'' then map_option Str (date p)
      else if k = ''category'' then map_option Str (category p)
      else if k = ''tags'' then map_option Arr (tags p)
      else if k = ''camera'' then map_option Str (camera p)
      else if k = ''width'' then map_option Num (width p)
      else if k = ''height'' then map_option Num (height p)
      else if k = ''featured'' then map_option Bool (featured p)
      else None)"

text \<open>
  What the key \<open>k\<close> finds above \<^verbatim>\<open>state.dirty\<close> in its prototype chain, where \<open>pr\<close> is the
  object that an assignment under \<^verbatim>\<open>__proto__\<close> made the prototype, if there was one: that
  object for the key \<^verbatim>\<open>__proto__\<close>, else a property of that object, else a member of
  \<^verbatim>\<open>Object.prototype\<close>.
\<close>

definition inherited :: "photo option \<Rightarrow> string \<Rightarrow> item option" where
  "inherited pr k =
     (if k = ''__proto__''
      then Some (case pr of Some ob \<Rightarrow> Rec ob | None \<Rightarrow> Builtin k)
      else (case (case pr of Some ob \<Rightarrow> field_of k ob | None \<Rightarrow> None) of
              Some x \<Rightarrow> Some (Prim x)
            | None \<Rightarrow> if k \<in> set object_members then Some (Builtin k) else None))"

text \<open>
  \<^verbatim>\<open>d[k]\<close> for the object that \<^verbatim>\<open>state.dirty\<close> holds, given as the association list \<open>d\<close>
  of its own properties and the prototype \<open>pr\<close>: \<open>None\<close> is \<^verbatim>\<open>undefined\<close>.
\<close>

definition read :: "(string \<times> photo) list \<Rightarrow> photo option \<Rightarrow> string \<Rightarrow> item option" where
  "read d pr k =
     (case map_of d k of
        Some v \<Rightarrow> Some (Rec v)
      | None \<Rightarrow> inherited pr k)"

text \<open>\<^verbatim>\<open>a || b\<close> for a value that may be undefined and a fallback.\<close>

fun or_else :: "item option \<Rightarrow> 'a \<Rightarrow> (item \<Rightarrow> 'a) \<Rightarrow> 'a" where
  "or_else None b f = b"
| "or_else (Some x) b f = (if truthy_item x then f x else b)"

subsection \<open>The state and the functions that change it\<close>

text \<open>
  The fields of \<^verbatim>\<open>state\<close> that the photo functions use. \<^verbatim>\<open>dirty\<close> is the association list
  of the own properties of the object, in insertion order (the code uses only the number
  of keys, never their order); assignment is \<open>AList.update\<close> (in place for a known key,
  appended for a new one) and the \<^verbatim>\<open>delete\<close> operator is \<open>AList.delete\<close>. \<^verbatim>\<open>proto\<close> is the prototype of
  that object: \<open>None\<close> for \<^verbatim>\<open>Object.prototype\<close>, as in a fresh \<^verbatim>\<open>{}\<close>, and \<open>Some\<close> of the
  object that an assignment under \<^verbatim>\<open>__proto__\<close> installed. \<^verbatim>\<open>sha\<close> and \<^verbatim>\<open>selected\<close> are \<^verbatim>\<open>null\<close>
  or a string. \<^verbatim>\<open>config\<close> does not change while photos are edited or published, and the
  site settings (\<^verbatim>\<open>siteConfig\<close>, \<^verbatim>\<open>configSha\<close>) are not touched by any function below.
\<close>

record state =
  photos :: "item list"
  dirty :: "(string \<times> photo) list"
  proto :: "photo option"
  pendingDeletes :: "item list"
  sha :: "string option"
  selected :: "string option"

definition init :: state where
  "init = \<lparr>photos = [], dirty = [], proto = None, pendingDeletes = [], sha = None,
           selected = None\<rparr>"

text \<open>
  \<^verbatim>\<open>startAdmin\<close>, after \<^verbatim>\<open>ghGetFile('photos.json')\<close> returned the tag \<open>s\<close> and a document
  whose \<^verbatim>\<open>photos\<close> array holds the photo objects \<open>m\<close>. \<^verbatim>\<open>state.dirty = {}\<close> is a new object,
  whose prototype is \<^verbatim>\<open>Object.prototype\<close>.
\<close>

definition startAdmin :: "string option \<Rightarrow> photo list \<Rightarrow> state \<Rightarrow> state" where
  "startAdmin s m st =
     st\<lparr>sha := s, photos := map Rec m, dirty := [], proto := None, pendingDeletes := []\<rparr>"

text \<open>
  A property key: \<^verbatim>\<open>state.dirty[p.id]\<close> with \<^verbatim>\<open>p.id\<close> undefined reads the key
  \<^verbatim>\<open>"undefined"\<close>, and \<^verbatim>\<open>state.dirty[state.selected]\<close> with \<^verbatim>\<open>selected\<close> null reads \<^verbatim>\<open>"null"\<close>.
\<close>

fun key_of :: "string option \<Rightarrow> string" where
  "key_of None = ''undefined''"
| "key_of (Some k) = k"

fun selected_key :: "string option \<Rightarrow> string" where
  "selected_key None = ''null''"
| "selected_key (Some k) = k"

text \<open>\<^verbatim>\<open>state.photos.find(p => p.id === id)\<close> for a string \<open>i\<close>.\<close>

definition find_photo :: "string \<Rightarrow> item list \<Rightarrow> item option" where
  "find_photo i ps = List.find (\<lambda>p. id_of p = Some i) ps"

text \<open>
  The same search for \<^verbatim>\<open>state.selected\<close>, which may be \<^verbatim>\<open>null\<close>: \<^verbatim>\<open>p.id === null\<close> is
  false for a string and for an absent id.
\<close>

fun find_selected :: "string option \<Rightarrow> item list \<Rightarrow> item option" where
  "find_selected None ps = None"
| "find_selected (Some i) ps = find_photo i ps"

text \<open>
  \<^verbatim>\<open>getPhoto(id)\<close>: \<^verbatim>\<open>state.dirty[id] || state.photos.find(p => p.id === id) || null\<close>.
  A photo object is truthy, so the second \<^verbatim>\<open>||\<close> changes nothing.
\<close>

definition getPhoto :: "string \<Rightarrow> state \<Rightarrow> item option" where
  "getPhoto i st =
     or_else (read (dirty st) (proto st) i) (find_photo i (photos st)) Some"

text \<open>\<^verbatim>\<open>selectPhoto(id)\<close>; the rest of it redraws the page.\<close>

definition selectPhoto :: "string \<Rightarrow> state \<Rightarrow> state" where
  "selectPhoto i st = st\<lparr>selected := Some i\<rparr>"

text \<open>
  The \<^verbatim>\<open>base\<close> of \<^verbatim>\<open>applyDraft\<close>, as the photo properties that the spread copies from it:
  \<^verbatim>\<open>state.dirty[id] || state.photos.find(p => p.id === id) || {}\<close> with \<^verbatim>\<open>id = state.selected\<close>.
\<close>

definition draft_base :: "state \<Rightarrow> photo" where
  "draft_base st =
     or_else (read (dirty st) (proto st) (selected_key (selected st)))
       (case find_selected (selected st) (photos st) of
          Some p \<Rightarrow> own_props p
        | None \<Rightarrow> empty_photo)
       own_props"

text \<open>
  \<^verbatim>\<open>applyDraft(partial)\<close>: \<^verbatim>\<open>state.dirty[id] = { ...base, ...partial }\<close>. Under the key
  \<^verbatim>\<open>__proto__\<close> the assignment replaces the prototype; under every other key it sets a
  property of \<^verbatim>\<open>state.dirty\<close> itself.
\<close>

definition applyDraft :: "draft \<Rightarrow> state \<Rightarrow> state" where
  "applyDraft partial st =
     (if selected_key (selected st) = ''__proto__''
      then st\<lparr>proto := Some (spread (draft_base st) partial)\<rparr>
      else st\<lparr>dirty := AList.update (selected_key (selected st))
                           (spread (draft_base st) partial) (dirty st)\<rparr>)"

text \<open>
  Staging an edit of photo \<open>i\<close>: the form handlers that call \<^verbatim>\<open>applyDraft\<close> are installed
  by \<^verbatim>\<open>renderEditPanel(i)\<close>, which \<^verbatim>\<open>selectPhoto(i)\<close> calls after setting
  \<^verbatim>\<open>state.selected\<close>.
\<close>

definition stageEdit :: "string \<Rightarrow> draft \<Rightarrow> state \<Rightarrow> state" where
  "stageEdit i partial st = applyDraft partial (selectPhoto i st)"

text \<open>The click handler of the Revert button (\<^verbatim>\<open>ef-reset\<close>) of photo \<open>i\<close>.\<close>

definition revert :: "string \<Rightarrow> state \<Rightarrow> state" where
  "revert i st = st\<lparr>dirty := AList.delete i (dirty st)\<rparr>"

text \<open>
  \<^verbatim>\<open>markForDelete(id)\<close>; \<open>confirmed\<close> is the user's answer to the \<^verbatim>\<open>confirm\<close> dialog.
\<close>

definition markForDelete :: "bool \<Rightarrow> string \<Rightarrow> state \<Rightarrow> state" where
  "markForDelete confirmed i st =
     (case find_photo i (photos st) of
        None \<Rightarrow> st
      | Some p \<Rightarrow>
          if \<not> confirmed then st
          else st\<lparr>pendingDeletes := pendingDeletes st @ [p],
                  photos := filter (\<lambda>q. id_of q \<noteq> Some i) (photos st),
                  dirty := AList.delete i (dirty st),
                  selected := None\<rparr>)"

text \<open>
  The list \<^verbatim>\<open>state.photos.map(p => state.dirty[p.id] ?? p)\<close> that \<^verbatim>\<open>publishToGitHub\<close>
  calls \<^verbatim>\<open>merged\<close>: the loaded photos in their order, each replaced by what the read of
  \<^verbatim>\<open>state.dirty\<close> under its id returns, if that is not undefined. It is what the user sees
  as the current list.
\<close>

definition merged :: "state \<Rightarrow> item list" where
  "merged st =
     map (\<lambda>p. case read (dirty st) (proto st) (key_of (id_of p)) of Some x \<Rightarrow> x | None \<Rightarrow> p)
       (photos st)"

text \<open>The count of \<^verbatim>\<open>updatePublishBtn\<close>.\<close>

definition pendingChangeCount :: "state \<Rightarrow> nat" where
  "pendingChangeCount st = length (dirty st) + length (pendingDeletes st)"

section \<open>The GitHub contents API and the publish sequence\<close>

text \<open>
  The three helpers \<^verbatim>\<open>ghGetFile\<close>, \<^verbatim>\<open>ghPutFile\<close> and \<^verbatim>\<open>ghDeleteFile\<close> talk to the
  remote repository with \<^verbatim>\<open>fetch\<close>. What \<^verbatim>\<open>fetch\<close> answers is not decided by this
  program, so the remote side is a parameter: a world of any type \<open>'w\<close> and, for each
  HTTP method the helpers use, a function from the request and the world to the answer
  and the next world. URL prefix, branch and authorisation header come from
  \<^verbatim>\<open>state.config\<close> and are the same in every request, so a request is identified by its
  method, its path and the fields of its body. In \<open>publishToGitHub\<close> below all calls of
  one publish run in sequence, with no other event handler between two \<^verbatim>\<open>await\<close>s; the
  section on sessions lets the other handlers run while a publish is suspended.

  An answer is what the helpers can observe of it:
  \<^item> \<open>Rejected m\<close>: the promise of \<^verbatim>\<open>fetch\<close> rejects with an error whose message is \<open>m\<close>
    (no connection, for instance);
  \<^item> \<open>NotOk j t\<close>: a response with \<^verbatim>\<open>res.ok\<close> false and status text \<open>t\<close>; \<open>j\<close> is
    \<open>Some\<close> of the text of \<^verbatim>\<open>d.message\<close> when \<^verbatim>\<open>res.json().then(d => d.message)\<close>
    resolves and \<open>None\<close> when it rejects;
  \<^item> \<open>Ok (Inl m)\<close>: \<^verbatim>\<open>res.ok\<close> is true and reading the JSON body throws an error with
    message \<open>m\<close>; \<open>Ok (Inr b)\<close>: the body is \<open>b\<close>.
\<close>

datatype 'b response = Rejected string | NotOk "string option" string | Ok "string + 'b"

text \<open>
  The body of a successful GET: \<^verbatim>\<open>data.sha\<close>, and the value of the expression
  \<^verbatim>\<open>decodeURIComponent(escape(atob(data.content.replace(/\n/g, ''))))\<close>, which is the
  decoded text or an error thrown while decoding (\<open>Inl\<close> of its message).
\<close>

record file_body =
  f_sha :: "string option"
  f_content :: "string + string"

text \<open>
  The body of a successful PUT, of which \<^verbatim>\<open>publishToGitHub\<close> reads
  \<^verbatim>\<open>result.content.sha\<close>: \<open>Inr\<close> of the tag (\<open>None\<close> when undefined), or \<open>Inl\<close> of the
  message of the error thrown when \<^verbatim>\<open>result.content\<close> is undefined or null.
\<close>

record put_reply =
  content_sha :: "string + string option"

text \<open>
  The JSON bodies of the PUT and DELETE requests. The content of a PUT is the manifest
  \<^verbatim>\<open>JSON.stringify({ photos: merged }, null, 2)\<close>, written here as the list it
  serialises (in which a function is written as \<^verbatim>\<open>null\<close> and \<^verbatim>\<open>Object.prototype\<close> as
  \<^verbatim>\<open>{}\<close>).
\<close>

record put_request =
  put_message :: string
  put_content :: "item list"
  put_sha :: "string option"

record del_request =
  del_message :: string
  del_sha :: "string option"

record 'w net =
  http_get :: "string \<Rightarrow> 'w \<Rightarrow> file_body response \<times> 'w"
  http_put :: "string \<Rightarrow> put_request \<Rightarrow> 'w \<Rightarrow> put_reply response \<times> 'w"
  http_delete :: "string \<Rightarrow> del_request \<Rightarrow> 'w \<Rightarrow> unit response \<times> 'w"

text \<open>A thrown \<^verbatim>\<open>Error\<close> and its \<^verbatim>\<open>message\<close>.\<close>

datatype exn = Error string

fun message :: "exn \<Rightarrow> string" where
  "message (Error m) = m"

text \<open>
  The message \<^verbatim>\<open>`GitHub: ${msg}`\<close> of a response that is not ok, with
  \<^verbatim>\<open>msg = await res.json().then(d => d.message).catch(() => res.statusText)\<close>.
\<close>

fun github_error :: "string option \<Rightarrow> string \<Rightarrow> exn" where
  "github_error (Some m) t = Error (''GitHub: '' @ m)"
| "github_error None t = Error (''GitHub: '' @ t)"

text \<open>\<^verbatim>\<open>ghGetFile(path)\<close>: the content and the tag, or the error it throws.\<close>

definition ghGetFile ::
  "'w net \<Rightarrow> string \<Rightarrow> 'w \<Rightarrow> (exn + string \<times> string option) \<times> 'w" where
  "ghGetFile nt path w =
     (case http_get nt path w of
        (Rejected m, w') \<Rightarrow> (Inl (Error m), w')
      | (NotOk j t, w') \<Rightarrow> (Inl (github_error j t), w')
      | (Ok (Inl m), w') \<Rightarrow> (Inl (Error m), w')
      | (Ok (Inr data), w') \<Rightarrow>
          (case f_content data of
             Inl m \<Rightarrow> (Inl (Error m), w')
           | Inr content \<Rightarrow> (Inr (content, f_sha data), w')))"

text \<open>\<^verbatim>\<open>if (sha) body.sha = sha\<close>: an undefined, null or empty tag is left out.\<close>

fun truthy :: "string option \<Rightarrow> bool" where
  "truthy None = False"
| "truthy (Some s) = (s \<noteq> [])"

text \<open>\<^verbatim>\<open>ghPutFile(path, content, sha, message)\<close>.\<close>

definition ghPutFile ::
  "'w net \<Rightarrow> string \<Rightarrow> item list \<Rightarrow> string option \<Rightarrow> string \<Rightarrow> 'w \<Rightarrow>
     (exn + put_reply) \<times> 'w" where
  "ghPutFile nt path content s msg w =
     (let body = \<lparr>put_message = msg, put_content = content,
                  put_sha = (if truthy s then s else None)\<rparr>
      in case http_put nt path body w of
           (Rejected m, w') \<Rightarrow> (Inl (Error m), w')
         | (NotOk j t, w') \<Rightarrow> (Inl (github_error j t), w')
         | (Ok (Inl m), w') \<Rightarrow> (Inl (Error m), w')
         | (Ok (Inr result), w') \<Rightarrow> (Inr result, w'))"

text \<open>
  \<^verbatim>\<open>ghDeleteFile(path, message)\<close>: \<open>None\<close> when it returns, \<open>Some\<close> of the error when it
  throws. The GET that fetches the tag is inside \<^verbatim>\<open>try { ... } catch { return; }\<close>; the
  \<^verbatim>\<open>await fetch(..., { method: 'DELETE', ... })\<close> after it is not, and its response is
  never inspected.
\<close>

definition ghDeleteFile :: "'w net \<Rightarrow> string \<Rightarrow> string \<Rightarrow> 'w \<Rightarrow> exn option \<times> 'w" where
  "ghDeleteFile nt path msg w =
     (case http_get nt path w of
        (Rejected m, w') \<Rightarrow> (None, w')
      | (NotOk j t, w') \<Rightarrow> (None, w')
      | (Ok (Inl m), w') \<Rightarrow> (None, w')
      | (Ok (Inr data), w') \<Rightarrow>
          (case http_delete nt path \<lparr>del_message = msg, del_sha = f_sha data\<rparr> w' of
             (Rejected m, w'') \<Rightarrow> (Some (Error m), w'')
           | (NotOk j t, w'') \<Rightarrow> (None, w'')
           | (Ok b, w'') \<Rightarrow> (None, w'')))"

text \<open>\<^verbatim>\<open>isLocal = p => p && !p.startsWith('http')\<close>.\<close>

fun isLocal :: "string option \<Rightarrow> bool" where
  "isLocal None = False"
| "isLocal (Some p) = (p \<noteq> [] \<and> take 4 p \<noteq> ''http'')"

text \<open>
  The calls of the three helpers that a publish makes, in order, each with what it
  returned or threw.
\<close>

datatype event =
    DeleteFile string string "exn option"
  | GetFile string "exn + string \<times> string option"
  | PutFile string "item list" "string option" string "exn + put_reply"

text \<open>\<^verbatim>\<open>if (isLocal(p)) await ghDeleteFile(p, msg)\<close>.\<close>

definition delete_if_local ::
  "'w net \<Rightarrow> string option \<Rightarrow> string \<Rightarrow> 'w \<Rightarrow> exn option \<times> 'w \<times> event list" where
  "delete_if_local nt p msg w =
     (case p of
        None \<Rightarrow> (None, w, [])
      | Some path \<Rightarrow>
          if isLocal (Some path)
          then (case ghDeleteFile nt path msg w of (r, w') \<Rightarrow> (r, w', [DeleteFile path msg r]))
          else (None, w, []))"

text \<open>
  The loop \<^verbatim>\<open>for (const photo of state.pendingDeletes)\<close>: it ends with \<open>None\<close> when every
  call returned and with \<open>Some\<close> of the error at the first call that throws. The text of
  \<^verbatim>\<open>${photo.id}\<close> for an absent id is \<^verbatim>\<open>undefined\<close>, as for a property key.
\<close>

fun deleteFiles :: "'w net \<Rightarrow> item list \<Rightarrow> 'w \<Rightarrow> exn option \<times> 'w \<times> event list" where
  "deleteFiles nt [] w = (None, w, [])"
| "deleteFiles nt (photo # rest) w =
     (case delete_if_local nt (src_of photo) (''Remove '' @ key_of (id_of photo) @ '' upload'') w of
        (Some e, w1, t1) \<Rightarrow> (Some e, w1, t1)
      | (None, w1, t1) \<Rightarrow>
          (case delete_if_local nt (thumb_of photo)
                  (''Remove '' @ key_of (id_of photo) @ '' thumbnail'') w1 of
             (Some e, w2, t2) \<Rightarrow> (Some e, w2, t1 @ t2)
           | (None, w2, t2) \<Rightarrow>
               (case deleteFiles nt rest w2 of (r, w3, t3) \<Rightarrow> (r, w3, t1 @ t2 @ t3))))"

definition hasEdits :: "state \<Rightarrow> bool" where
  "hasEdits st = (dirty st \<noteq> [])"

definition hasDeletes :: "state \<Rightarrow> bool" where
  "hasDeletes st = (pendingDeletes st \<noteq> [])"

text \<open>
  The four assignments after a successful \<^verbatim>\<open>ghPutFile\<close>; \<^verbatim>\<open>state.dirty = {}\<close> is a new
  object, whose prototype is \<^verbatim>\<open>Object.prototype\<close>.
\<close>

definition commit :: "string option \<Rightarrow> item list \<Rightarrow> state \<Rightarrow> state" where
  "commit s m st =
     st\<lparr>sha := s, photos := m, dirty := [], proto := None, pendingDeletes := []\<rparr>"

text \<open>
  What one call of \<^verbatim>\<open>publishToGitHub\<close> leaves: the state, the remote world, the helper
  calls it made and the one \<^verbatim>\<open>showToast(msg, type)\<close> it ends with.
\<close>

record 'w run =
  final :: state
  world :: 'w
  calls :: "event list"
  toast :: "string \<times> string"

text \<open>The \<^verbatim>\<open>catch (err)\<close> of \<^verbatim>\<open>publishToGitHub\<close>: the state is as it was.\<close>

definition failed :: "state \<Rightarrow> 'w \<Rightarrow> event list \<Rightarrow> exn \<Rightarrow> 'w run" where
  "failed st w t e =
     \<lparr>final = st, world = w, calls = t,
      toast = (''Publish failed: '' @ message e, ''error'')\<rparr>"

definition published :: "string \<times> string" where
  "published = (''Published! Site updates in ~1 minute.'', ''success'')"

definition nothing_to_publish :: "string \<times> string" where
  "nothing_to_publish = (''No changes to publish.'', [])"

text \<open>
  \<^verbatim>\<open>publishToGitHub()\<close>. Every statement that can throw is inside its \<^verbatim>\<open>try\<close>; the
  button and the grid it redraws are not part of the state.
\<close>

definition publishToGitHub :: "'w net \<Rightarrow> state \<Rightarrow> 'w \<Rightarrow> 'w run" where
  "publishToGitHub nt st w =
     (if \<not> hasEdits st \<and> \<not> hasDeletes st
      then \<lparr>final = st, world = w, calls = [], toast = nothing_to_publish\<rparr>
      else
        (case deleteFiles nt (pendingDeletes st) w of
           (Some e, w1, t1) \<Rightarrow> failed st w1 t1 e
         | (None, w1, t1) \<Rightarrow>
             if hasEdits st \<or> hasDeletes st
             then
               (let m = merged st in
                case ghGetFile nt ''photos.json'' w1 of
                  (Inl e, w2) \<Rightarrow> failed st w2 (t1 @ [GetFile ''photos.json'' (Inl e)]) e
                | (Inr (content, s), w2) \<Rightarrow>
                    (case ghPutFile nt ''photos.json'' m s
                            ''Update photo metadata via admin panel'' w2 of
                       (Inl e, w3) \<Rightarrow>
                         failed st w3
                           (t1 @ [GetFile ''photos.json'' (Inr (content, s)),
                                  PutFile ''photos.json'' m s
                                    ''Update photo metadata via admin panel'' (Inl e)]) e
                     | (Inr result, w3) \<Rightarrow>
                         (let t = t1 @ [GetFile ''photos.json'' (Inr (content, s)),
                                        PutFile ''photos.json'' m s
                                          ''Update photo metadata via admin panel''
                                          (Inr result)]
                          in case content_sha result of
                               Inl msg \<Rightarrow> failed st w3 t (Error msg)
                             | Inr s' \<Rightarrow>
                                 \<lparr>final = commit s' m st, world = w3, calls = t,
                                  toast = published\<rparr>)))
             else \<lparr>final = st, world = w1, calls = t1, toast = published\<rparr>))"


section \<open>Editing sessions\<close>

text \<open>
  The three ways the user stages a change, as values, so that a sequence of them can be
  replayed. A staged deletion is a \<^verbatim>\<open>markForDelete\<close> whose dialog the user confirmed.
\<close>

datatype op = StageEdit string draft | StageDelete string | Revert string

fun apply_op :: "op \<Rightarrow> state \<Rightarrow> state" where
  "apply_op (StageEdit i partial) st = stageEdit i partial st"
| "apply_op (StageDelete i) st = markForDelete True i st"
| "apply_op (Revert i) st = revert i st"

text \<open>
  What the specification requires of the id of an edit or a deletion: it resolves to an
  existing effective record, that is, something is staged under it or a photo of the
  list has it. A revert requires nothing.
\<close>

definition resolves :: "string \<Rightarrow> state \<Rightarrow> bool" where
  "resolves i st = (i \<in> fst ` set (dirty st) \<or> Some i \<in> set (map id_of (photos st)))"

fun op_ok :: "op \<Rightarrow> state \<Rightarrow> bool" where
  "op_ok (StageEdit i partial) st = resolves i st"
| "op_ok (StageDelete i) st = resolves i st"
| "op_ok (Revert i) st = True"

fun run_ops :: "op list \<Rightarrow> state \<Rightarrow> state" where
  "run_ops [] st = st"
| "run_ops (x # xs) st = run_ops xs (apply_op x st)"

fun ops_ok :: "op list \<Rightarrow> state \<Rightarrow> bool" where
  "ops_ok [] st = True"
| "ops_ok (x # xs) st = (op_ok x st \<and> ops_ok xs (apply_op x st))"

text \<open>
  A manifest whose records all have an id, one whose ids are also unique, and one none
  of whose ids names a member of \<^verbatim>\<open>Object.prototype\<close>.
\<close>

definition ids_defined :: "photo list \<Rightarrow> bool" where
  "ids_defined m = (None \<notin> set (map pid m))"

definition valid_manifest :: "photo list \<Rightarrow> bool" where
  "valid_manifest m = (ids_defined m \<and> distinct (map pid m))"

definition plain_ids :: "photo list \<Rightarrow> bool" where
  "plain_ids m = (\<forall>i \<in> set object_members. Some i \<notin> set (map pid m))"

text \<open>
  \<^verbatim>\<open>publishToGitHub\<close> computes \<^verbatim>\<open>merged\<close> (line 243), then awaits the read and the write
  of \<^verbatim>\<open>photos.json\<close>, and only then assigns \<^verbatim>\<open>merged\<close> to \<^verbatim>\<open>state.photos\<close> and empties
  \<^verbatim>\<open>state.dirty\<close> and \<^verbatim>\<open>state.pendingDeletes\<close>. While it is suspended the other handlers
  can run: the edit form and the Delete button are not disabled, and \<^verbatim>\<open>updatePublishBtn\<close>,
  which every staging handler calls, enables the Publish button again, so that another
  publish can begin. A session is therefore the state together with the \<^verbatim>\<open>merged\<close> arrays
  of the publishes that are suspended.
\<close>

type_synonym session = "state \<times> item list list"

text \<open>
  The sessions the console can be in. It starts with the initial state; a load that
  completes installs any manifest; the user selects any id, a form handler calls
  \<^verbatim>\<open>applyDraft\<close> with any draft for the id selected at that moment, the user deletes (with
  any id and any answer to the dialog) and reverts; a publish takes its \<^verbatim>\<open>merged\<close> array
  and later either commits that array or fails and leaves the state as it is.
\<close>

inductive reachable :: "session \<Rightarrow> bool" where
  fresh: "reachable (init, [])"
| loaded: "reachable (st, fs) \<Longrightarrow> reachable (startAdmin s m st, fs)"
| chosen: "reachable (st, fs) \<Longrightarrow> reachable (selectPhoto i st, fs)"
| drafted: "reachable (st, fs) \<Longrightarrow> reachable (applyDraft partial st, fs)"
| delete: "reachable (st, fs) \<Longrightarrow> reachable (markForDelete c i st, fs)"
| reverted: "reachable (st, fs) \<Longrightarrow> reachable (revert i st, fs)"
| taken: "reachable (st, fs) \<Longrightarrow> reachable (st, merged st # fs)"
| committed: "reachable (st, fs) \<Longrightarrow> m \<in> set fs \<Longrightarrow> reachable (commit s m st, remove1 m fs)"
| abandoned: "reachable (st, fs) \<Longrightarrow> m \<in> set fs \<Longrightarrow> reachable (st, remove1 m fs)"

text \<open>
  \<open>later a b\<close>: the session can get from \<open>a\<close> to \<open>b\<close> by such steps without a load
  completing in between.
\<close>

inductive later :: "session \<Rightarrow> session \<Rightarrow> bool" where
  now: "later a a"
| chosen: "later a (st, fs) \<Longrightarrow> later a (selectPhoto i st, fs)"
| drafted: "later a (st, fs) \<Longrightarrow> later a (applyDraft partial st, fs)"
| delete: "later a (st, fs) \<Longrightarrow> later a (markForDelete c i st, fs)"
| reverted: "later a (st, fs) \<Longrightarrow> later a (revert i st, fs)"
| taken: "later a (st, fs) \<Longrightarrow> later a (st, merged st # fs)"
| committed: "later a (st, fs) \<Longrightarrow> m \<in> set fs \<Longrightarrow> later a (commit s m st, remove1 m fs)"
| abandoned: "later a (st, fs) \<Longrightarrow> m \<in> set fs \<Longrightarrow> later a (st, remove1 m fs)"

section \<open>The batch processor\<close>

text \<open>
  \<^verbatim>\<open>scripts/process-photos.js\<close>. File names are strings of ASCII characters here, so
  \<^verbatim>\<open>toLowerCase\<close> changes the letters \<^verbatim>\<open>A\<close> to \<^verbatim>\<open>Z\<close> only.
\<close>

definition lower :: "char \<Rightarrow> char" where
  "lower c = (let n = (of_char c :: nat) in if 65 \<le> n \<and> n \<le> 90 then char_of (n + 32) else c)"

definition toLowerCase :: "string \<Rightarrow> string" where
  "toLowerCase s = map lower s"

text \<open>The character class \<^verbatim>\<open>[a-z0-9]\<close>.\<close>

definition alnum :: "char \<Rightarrow> bool" where
  "alnum c = (let n = (of_char c :: nat) in (97 \<le> n \<and> n \<le> 122) \<or> (48 \<le> n \<and> n \<le> 57))"

text \<open>
  \<^verbatim>\<open>.replace(/\.[^.]+$/, '')\<close>: the last dot and what follows it are removed when
  something follows it.
\<close>

definition strip_ext :: "string \<Rightarrow> string" where
  "strip_ext s =
     (let r = rev s;
          ext = takeWhile (\<lambda>c. c \<noteq> CHR ''.'') r;
          rest = dropWhile (\<lambda>c. c \<noteq> CHR ''.'') r
      in if rest = [] \<or> ext = [] then s else rev (tl rest))"

text \<open>\<^verbatim>\<open>.replace(/[^a-z0-9]+/g, '-')\<close>: every maximal run of other characters becomes one hyphen.\<close>

function hyphenate :: "string \<Rightarrow> string" where
  "hyphenate [] = []"
| "hyphenate (c # cs) =
     (if alnum c then c # hyphenate cs
      else CHR ''-'' # hyphenate (dropWhile (\<lambda>d. \<not> alnum d) cs))"
  by pat_completeness auto
termination
  by (relation "measure length") (auto simp: length_dropWhile_le less_Suc_eq_le)

text \<open>\<^verbatim>\<open>.replace(/^-+|-+$/g, '')\<close>.\<close>

definition trim_hyphens :: "string \<Rightarrow> string" where
  "trim_hyphens s =
     rev (dropWhile (\<lambda>c. c = CHR ''-'') (rev (dropWhile (\<lambda>c. c = CHR ''-'') s)))"

definition slugify :: "string \<Rightarrow> string" where
  "slugify name = trim_hyphens (hyphenate (strip_ext (toLowerCase name)))"

text \<open>
  The filter on the listing of \<^verbatim>\<open>photos/uploads\<close>. For a bare file name that does not
  begin with a dot, \<^verbatim>\<open>extname\<close> is the part from the last dot on, or empty without a dot.
\<close>

definition IMAGE_EXTS :: "string list" where
  "IMAGE_EXTS = [''.jpg'', ''.jpeg'', ''.png'', ''.tif'', ''.tiff'', ''.heic'', ''.heif'', ''.webp'']"

definition extname :: "string \<Rightarrow> string" where
  "extname f =
     (if CHR ''.'' \<in> set f then CHR ''.'' # rev (takeWhile (\<lambda>c. c \<noteq> CHR ''.'') (rev f)) else [])"

definition image_file :: "string \<Rightarrow> bool" where
  "image_file f = (toLowerCase (extname f) \<in> set IMAGE_EXTS \<and> take 1 f \<noteq> ''.'')"

text \<open>
  What \<^verbatim>\<open>sharp\<close> and \<^verbatim>\<open>exifr\<close> report for a file the processor could read and write a
  thumbnail for: the decoded size, and the EXIF make, model and date (the date already
  through \<^verbatim>\<open>formatDate\<close>). A failed EXIF read leaves the three EXIF fields absent.
\<close>

record probe =
  meta_width :: "nat option"
  meta_height :: "nat option"
  exif_make :: "string option"
  exif_model :: "string option"
  exif_date :: "string option"

text \<open>\<^verbatim>\<open>x || d\<close> for a string and for a number.\<close>

fun or_str :: "string option \<Rightarrow> string \<Rightarrow> string" where
  "or_str None d = d"
| "or_str (Some s) d = (if s = [] then d else s)"

fun or_num :: "nat option \<Rightarrow> nat \<Rightarrow> nat" where
  "or_num None d = d"
| "or_num (Some n) d = (if n = 0 then d else n)"

fun join :: "string \<Rightarrow> string list \<Rightarrow> string" where
  "join sep [] = []"
| "join sep [x] = x"
| "join sep (x # y # ys) = x @ sep @ join sep (y # ys)"

text \<open>The stub entry of one new file.\<close>

definition entry :: "string \<Rightarrow> string \<Rightarrow> probe \<Rightarrow> photo" where
  "entry i filename pr =
     (let make = or_str (exif_make pr) [];
          model = or_str (exif_model pr) [];
          cam = or_str (Some (join '' '' (filter (\<lambda>s. s \<noteq> []) [make, model])))
                  ''Hasselblad X2D II'';
          dt = (case exif_date pr of None \<Rightarrow> [] | Some d \<Rightarrow> d)
      in \<lparr>pid = Some i,
          src = Some (''photos/uploads/'' @ filename),
          thumb = Some (''photos/thumbs/'' @ i @ ''.jpg''),
          title = Some [], description = Some [], location = Some [],
          date = Some dt, category = Some ''Uncategorized'', tags = Some [],
          camera = Some cam,
          width = Some (or_num (meta_width pr) 0),
          height = Some (or_num (meta_height pr) 0),
          featured = Some False\<rparr>)"

text \<open>The variables of the main loop.\<close>

record scan =
  knownIds :: "string option list"
  newEntries :: "photo list"
  processed :: nat
  skipped :: nat

text \<open>
  The loop over the files. \<open>develop f\<close> is \<open>None\<close> when the \<^verbatim>\<open>try\<close> block of file \<open>f\<close>
  throws (the file is reported and left out) and the probe of \<open>f\<close> otherwise.
\<close>

fun process_files :: "(string \<Rightarrow> probe option) \<Rightarrow> string list \<Rightarrow> scan \<Rightarrow> scan" where
  "process_files develop [] sc = sc"
| "process_files develop (filename # files) sc =
     (let i = slugify filename in
      if Some i \<in> set (knownIds sc)
      then process_files develop files (sc\<lparr>skipped := skipped sc + 1\<rparr>)
      else
        (case develop filename of
           None \<Rightarrow> process_files develop files sc
         | Some pr \<Rightarrow>
             process_files develop files
               (sc\<lparr>newEntries := newEntries sc @ [entry i filename pr],
                   knownIds := knownIds sc @ [Some i],
                   processed := processed sc + 1\<rparr>)))"

text \<open>The entries one run adds to a manifest whose photos are \<open>ps\<close>.\<close>

definition added :: "(string \<Rightarrow> probe option) \<Rightarrow> string list \<Rightarrow> photo list \<Rightarrow> photo list" where
  "added develop listing ps =
     newEntries
       (process_files develop (filter image_file listing)
          \<lparr>knownIds = map pid ps, newEntries = [], processed = 0, skipped = 0\<rparr>)"

text \<open>
  The whole script: the photos of \<^verbatim>\<open>photos.json\<close> after a run over the directory
  listing. \<open>ps\<close> is \<^verbatim>\<open>photosData.photos\<close> after the loading block: the photos of the
  file, or none when the file is missing, does not parse or has no array of photos. The
  file is written only when there are new entries, and the script exits before the loop
  when no image file is found.
\<close>

definition process_photos ::
  "(string \<Rightarrow> probe option) \<Rightarrow> string list \<Rightarrow> photo list \<Rightarrow> photo list" where
  "process_photos develop listing ps =
     (let files = filter image_file listing in
      if files = [] then ps
      else
        (let es = newEntries
                    (process_files develop files
                       \<lparr>knownIds = map pid ps, newEntries = [], processed = 0, skipped = 0\<rparr>)
         in if es \<noteq> [] then ps @ es else ps))"


section \<open>Auxiliary notions for the statements\<close>

text \<open>The paths of one photo that the deletion loop passes to \<^verbatim>\<open>ghDeleteFile\<close>.\<close>

fun local_path :: "string option \<Rightarrow> string list" where
  "local_path None = []"
| "local_path (Some p) = (if isLocal (Some p) then [p] else [])"

definition local_paths :: "item \<Rightarrow> string list" where
  "local_paths p = local_path (src_of p) @ local_path (thumb_of p)"

text \<open>The paths of the \<^verbatim>\<open>ghDeleteFile\<close> calls among some events, in order.\<close>

fun delete_target :: "event \<Rightarrow> string list" where
  "delete_target (DeleteFile p m r) = [p]"
| "delete_target (GetFile p r) = []"
| "delete_target (PutFile p c s m r) = []"

definition deleted_paths :: "event list \<Rightarrow> string list" where
  "deleted_paths t = concat (map delete_target t)"

fun is_delete :: "event \<Rightarrow> bool" where
  "is_delete (DeleteFile p m r) = True"
| "is_delete (GetFile p r) = False"
| "is_delete (PutFile p c s m r) = False"

text \<open>The manifests among the arguments of the \<^verbatim>\<open>ghPutFile\<close> calls of some events, in order.\<close>

fun put_payload :: "event \<Rightarrow> item list list" where
  "put_payload (DeleteFile p m r) = []"
| "put_payload (GetFile p r) = []"
| "put_payload (PutFile p c s m r) = [c]"

definition written :: "event list \<Rightarrow> item list list" where
  "written t = concat (map put_payload t)"

text \<open>
  The merged manifest as the specification describes it: the photo list with each
  record replaced by the object staged under its id, when there is one. It differs from
  \<open>merged\<close> in looking at the staged objects only, not at what the object that holds
  them inherits.
\<close>

definition overlaid :: "state \<Rightarrow> item list" where
  "overlaid st =
     map (\<lambda>p. case map_of (dirty st) (key_of (id_of p)) of Some v \<Rightarrow> Rec v | None \<Rightarrow> p)
       (photos st)"

text \<open>
  An invariant of sessions: a staged object carries no id (it was built from \<^verbatim>\<open>{}\<close> or
  from an inherited value), or it carries the id it is filed under and a photo of the
  list has that id; an object installed as the prototype carries no id; and nothing is
  staged under the key \<^verbatim>\<open>__proto__\<close>.
\<close>

definition overlay_keyed :: "state \<Rightarrow> bool" where
  "overlay_keyed st =
     ((\<forall>(k, v) \<in> set (dirty st).
         pid v = None \<or> (pid v = Some k \<and> Some k \<in> set (map id_of (photos st)))) \<and>
      (\<forall>ob. proto st = Some ob \<longrightarrow> pid ob = None) \<and>
      ''__proto__'' \<notin> fst ` set (dirty st))"

text \<open>
  An invariant of the staging operations after the manifest \<open>m\<close> was loaded: the ids of
  the photo list are those of \<open>m\<close>, in order, without the ids staged for deletion, every
  staged object carries the id it is filed under, which a photo of the list has, and
  the prototype of \<^verbatim>\<open>state.dirty\<close> is \<^verbatim>\<open>Object.prototype\<close>.
\<close>

definition tracks :: "photo list \<Rightarrow> state \<Rightarrow> bool" where
  "tracks m st =
     (map id_of (photos st) =
        filter (\<lambda>x. x \<notin> set (map id_of (pendingDeletes st))) (map pid m) \<and>
      (\<forall>(k, v) \<in> set (dirty st). pid v = Some k \<and> Some k \<in> set (map id_of (photos st))) \<and>
      proto st = None)"



section \<open>Sample data\<close>

text \<open>
  Four photos: the first with an upload in the repository and a thumbnail elsewhere,
  the third made by the batch processor from a file \<^verbatim>\<open>constructor.jpg\<close>, the fourth a
  record without an id. An edit of a title, and some states of sessions that loaded
  photos under the tag \<^verbatim>\<open>v1\<close>; in the last one an edit was staged after a click on the
  cell of the record without an id, whose \<^verbatim>\<open>data-id\<close> is the text \<^verbatim>\<open>undefined\<close>.
\<close>

definition photo_a :: photo where
  "photo_a = empty_photo\<lparr>pid := Some ''a'', src := Some ''photos/uploads/a.jpg'',
                         thumb := Some ''https://cdn.example/a.jpg'', title := Some ''Old''\<rparr>"

definition photo_b :: photo where
  "photo_b = empty_photo\<lparr>pid := Some ''b'', src := Some ''photos/uploads/b.jpg'',
                         thumb := Some ''photos/thumbs/b.jpg'', title := Some ''Bee''\<rparr>"

definition photo_c :: photo where
  "photo_c = empty_photo\<lparr>pid := Some ''constructor'',
                         src := Some ''photos/uploads/constructor.jpg'',
                         thumb := Some ''photos/thumbs/constructor.jpg'', title := Some []\<rparr>"

definition photo_n :: photo where
  "photo_n = empty_photo\<lparr>src := Some ''photos/uploads/n.jpg'', title := Some ''Nameless''\<rparr>"

definition retitle :: draft where
  "retitle = \<lparr>d_title = Some ''New'', d_location = None, d_date = None,
              d_description = None, d_category = None, d_featured = None, d_tags = None\<rparr>"

definition loaded :: state where
  "loaded = startAdmin (Some ''v1'') [photo_a, photo_b] init"

definition edited :: state where
  "edited = stageEdit ''a'' retitle loaded"

definition edited_then_deleted :: state where
  "edited_then_deleted = markForDelete True ''a'' edited"

definition both_deleted :: state where
  "both_deleted = markForDelete True ''b'' (markForDelete True ''a'' loaded)"

definition loaded_c :: state where
  "loaded_c = startAdmin (Some ''v1'') [photo_c, photo_b] init"

definition edited_c :: state where
  "edited_c = stageEdit ''b'' retitle loaded_c"

definition loaded_n :: state where
  "loaded_n = startAdmin (Some ''v1'') [photo_n, photo_b] init"

definition edited_n :: state where
  "edited_n = stageEdit ''undefined'' retitle loaded_n"

text \<open>
  Three remote sides whose world counts the requests served. The first accepts
  everything; the second refuses the PUT with a conflict; the third serves GET and PUT
  but the connection drops at every DELETE request.
\<close>

definition get_v1 :: "string \<Rightarrow> nat \<Rightarrow> file_body response \<times> nat" where
  "get_v1 p w = (Ok (Inr \<lparr>f_sha = Some ''v1'', f_content = Inr []\<rparr>), w + 1)"

definition put_v2 :: "string \<Rightarrow> put_request \<Rightarrow> nat \<Rightarrow> put_reply response \<times> nat" where
  "put_v2 p b w = (Ok (Inr \<lparr>content_sha = Inr (Some ''v2'')\<rparr>), w + 1)"

definition delete_done :: "string \<Rightarrow> del_request \<Rightarrow> nat \<Rightarrow> unit response \<times> nat" where
  "delete_done p b w = (Ok (Inr ()), w + 1)"

definition accepting :: "nat net" where
  "accepting = \<lparr>http_get = get_v1, http_put = put_v2, http_delete = delete_done\<rparr>"

definition conflicting :: "nat net" where
  "conflicting =
     \<lparr>http_get = get_v1,
      http_put = (\<lambda>p b w. (NotOk (Some ''photos.json does not match'') ''Conflict'', w + 1)),
      http_delete = delete_done\<rparr>"

definition dropping :: "nat net" where
  "dropping =
     \<lparr>http_get = get_v1, http_put = put_v2,
      http_delete = (\<lambda>p b w. (Rejected ''Failed to fetch'', w + 1))\<rparr>"

text \<open>An uploads directory and a processor that can read every file but one.\<close>

definition uploads :: "string list" where
  "uploads = [''IMG 01.JPG'', ''img-01.png'', ''notes.txt'', ''broken.jpg'', ''Sunset.jpeg'']"

definition plain :: probe where
  "plain = \<lparr>meta_width = Some 4000, meta_height = Some 3000, exif_make = None,
            exif_model = None, exif_date = None\<rparr>"

definition reads :: "string \<Rightarrow> probe option" where
  "reads f = (if f = ''broken.jpg'' then None else Some plain)"

section \<open>Evaluating the sample data\<close>

lemmas store_defs =
  startAdmin_def stageEdit_def selectPhoto_def applyDraft_def markForDelete_def
  revert_def getPhoto_def find_photo_def spread_def merged_def init_def empty_photo_def
  read_def inherited_def field_of_def draft_base_def object_members_def

lemmas net_defs =
  accepting_def conflicting_def dropping_def get_v1_def put_v2_def delete_done_def
  ghGetFile_def ghPutFile_def ghDeleteFile_def delete_if_local_def

lemma loaded_eq:
  "loaded = \<lparr>photos = [Rec photo_a, Rec photo_b], dirty = [], proto = None, pendingDeletes = [],
            sha = Some ''v1'', selected = None\<rparr>"
  by (simp add: loaded_def store_defs)

lemma edited_eq:
  "edited = \<lparr>photos = [Rec photo_a, Rec photo_b],
            dirty = [(''a'', photo_a\<lparr>title := Some ''New''\<rparr>)],
            proto = None, pendingDeletes = [], sha = Some ''v1'', selected = Some ''a''\<rparr>"
  by (simp add: edited_def loaded_eq photo_a_def photo_b_def retitle_def store_defs Let_def)

lemma edited_then_deleted_eq:
  "edited_then_deleted =
     \<lparr>photos = [Rec photo_b], dirty = [], proto = None, pendingDeletes = [Rec photo_a],
      sha = Some ''v1'', selected = None\<rparr>"
  by (simp add: edited_then_deleted_def edited_eq photo_a_def photo_b_def store_defs)

lemma both_deleted_eq:
  "both_deleted =
     \<lparr>photos = [], dirty = [], proto = None, pendingDeletes = [Rec photo_a, Rec photo_b],
      sha = Some ''v1'', selected = None\<rparr>"
  by (simp add: both_deleted_def loaded_eq photo_a_def photo_b_def store_defs)

lemma loaded_c_eq:
  "loaded_c = \<lparr>photos = [Rec photo_c, Rec photo_b], dirty = [], proto = None, pendingDeletes = [],
              sha = Some ''v1'', selected = None\<rparr>"
  by (simp add: loaded_c_def store_defs)

lemma edited_c_eq:
  "edited_c = \<lparr>photos = [Rec photo_c, Rec photo_b],
              dirty = [(''b'', photo_b\<lparr>title := Some ''New''\<rparr>)],
              proto = None, pendingDeletes = [], sha = Some ''v1'', selected = Some ''b''\<rparr>"
  by (simp add: edited_c_def loaded_c_eq photo_c_def photo_b_def retitle_def store_defs Let_def)

lemma loaded_n_eq:
  "loaded_n = \<lparr>photos = [Rec photo_n, Rec photo_b], dirty = [], proto = None, pendingDeletes = [],
              sha = Some ''v1'', selected = None\<rparr>"
  by (simp add: loaded_n_def store_defs)

lemma edited_n_eq:
  "edited_n = \<lparr>photos = [Rec photo_n, Rec photo_b],
              dirty = [(''undefined'', empty_photo\<lparr>title := Some ''New''\<rparr>)],
              proto = None, pendingDeletes = [], sha = Some ''v1'', selected = Some ''undefined''\<rparr>"
  by (simp add: edited_n_def loaded_n_eq photo_n_def photo_b_def retitle_def store_defs Let_def)

lemma merged_edited: "merged edited = [Rec (photo_a\<lparr>title := Some ''New''\<rparr>), Rec photo_b]"
  by (simp add: edited_eq merged_def read_def inherited_def field_of_def object_members_def photo_a_def photo_b_def
        empty_photo_def)

lemma merged_edited_c:
  "merged edited_c = [Builtin ''constructor'', Rec (photo_b\<lparr>title := Some ''New''\<rparr>)]"
  by (simp add: edited_c_eq merged_def read_def inherited_def field_of_def object_members_def photo_c_def photo_b_def
        empty_photo_def)

lemma merged_edited_n:
  "merged edited_n = [Rec (empty_photo\<lparr>title := Some ''New''\<rparr>), Rec photo_b]"
  by (simp add: edited_n_eq merged_def read_def inherited_def field_of_def object_members_def photo_n_def photo_b_def
        empty_photo_def)

lemma get_manifest_v1:
  "ghGetFile accepting ''photos.json'' w = (Inr ([], Some ''v1''), w + 1)"
  "ghGetFile conflicting ''photos.json'' w = (Inr ([], Some ''v1''), w + 1)"
  "ghGetFile dropping ''photos.json'' w = (Inr ([], Some ''v1''), w + 1)"
  by (simp_all add: net_defs)

lemma put_accepted:
  "ghPutFile accepting ''photos.json'' m s msg w = (Inr \<lparr>content_sha = Inr (Some ''v2'')\<rparr>, w + 1)"
  by (simp add: net_defs)

lemma put_refused:
  "ghPutFile conflicting ''photos.json'' m s msg w =
     (Inl (Error ''GitHub: photos.json does not match''), w + 1)"
  by (simp add: net_defs)

lemma edited_facts:
  "hasEdits edited" "pendingDeletes edited = []"
  by (simp_all add: hasEdits_def edited_eq)

lemma edited_c_facts:
  "hasEdits edited_c" "pendingDeletes edited_c = []"
  by (simp_all add: hasEdits_def edited_c_eq)

lemma edited_n_facts:
  "hasEdits edited_n" "pendingDeletes edited_n = []"
  by (simp_all add: hasEdits_def edited_n_eq)

lemma publish_edited_accepting:
  "publishToGitHub accepting edited 0 =
     \<lparr>final = \<lparr>photos = [Rec (photo_a\<lparr>title := Some ''New''\<rparr>), Rec photo_b], dirty = [], proto = None,
               pendingDeletes = [], sha = Some ''v2'', selected = Some ''a''\<rparr>,
      world = 2,
      calls = [GetFile ''photos.json'' (Inr ([], Some ''v1'')),
               PutFile ''photos.json'' [Rec (photo_a\<lparr>title := Some ''New''\<rparr>), Rec photo_b]
                 (Some ''v1'') ''Update photo metadata via admin panel''
                 (Inr \<lparr>content_sha = Inr (Some ''v2'')\<rparr>)],
      toast = published\<rparr>"
  by (simp add: publishToGitHub_def edited_facts get_manifest_v1 put_accepted merged_edited
        commit_def Let_def)
     (simp add: edited_eq)

lemma publish_edited_c_accepting:
  "publishToGitHub accepting edited_c 0 =
     \<lparr>final = \<lparr>photos = [Builtin ''constructor'', Rec (photo_b\<lparr>title := Some ''New''\<rparr>)],
               dirty = [], proto = None, pendingDeletes = [], sha = Some ''v2'', selected = Some ''b''\<rparr>,
      world = 2,
      calls = [GetFile ''photos.json'' (Inr ([], Some ''v1'')),
               PutFile ''photos.json''
                 [Builtin ''constructor'', Rec (photo_b\<lparr>title := Some ''New''\<rparr>)]
                 (Some ''v1'') ''Update photo metadata via admin panel''
                 (Inr \<lparr>content_sha = Inr (Some ''v2'')\<rparr>)],
      toast = published\<rparr>"
  by (simp add: publishToGitHub_def edited_c_facts get_manifest_v1 put_accepted merged_edited_c
        commit_def Let_def)
     (simp add: edited_c_eq)

lemma publish_edited_n_accepting:
  "publishToGitHub accepting edited_n 0 =
     \<lparr>final = \<lparr>photos = [Rec (empty_photo\<lparr>title := Some ''New''\<rparr>), Rec photo_b],
               dirty = [], proto = None, pendingDeletes = [], sha = Some ''v2'',
               selected = Some ''undefined''\<rparr>,
      world = 2,
      calls = [GetFile ''photos.json'' (Inr ([], Some ''v1'')),
               PutFile ''photos.json''
                 [Rec (empty_photo\<lparr>title := Some ''New''\<rparr>), Rec photo_b]
                 (Some ''v1'') ''Update photo metadata via admin panel''
                 (Inr \<lparr>content_sha = Inr (Some ''v2'')\<rparr>)],
      toast = published\<rparr>"
  by (simp add: publishToGitHub_def edited_n_facts get_manifest_v1 put_accepted merged_edited_n
        commit_def Let_def)
     (simp add: edited_n_eq)

section \<open>Publishing\<close>

lemma deleteFiles_only_deletes:
  "deleteFiles nt ps w = (r, w', t) \<Longrightarrow> \<forall>ev \<in> set t. is_delete ev"
proof (induction ps arbitrary: w r w' t)
  case Nil
  then show ?case by simp
next
  case (Cons p ps)
  then show ?case
    by (fastforce simp: delete_if_local_def split: prod.splits option.splits if_splits)
qed

lemma publish_cases [case_names nothing delete_threw get_threw put_threw sha_threw wrote]:
  obtains
    (nothing) "\<not> hasEdits st" "\<not> hasDeletes st"
      "publishToGitHub nt st w = \<lparr>final = st, world = w, calls = [], toast = nothing_to_publish\<rparr>"
  | (delete_threw) e w1 t1 where "hasEdits st \<or> hasDeletes st"
      "deleteFiles nt (pendingDeletes st) w = (Some e, w1, t1)"
      "publishToGitHub nt st w = failed st w1 t1 e"
  | (get_threw) w1 t1 e w2 where "hasEdits st \<or> hasDeletes st"
      "deleteFiles nt (pendingDeletes st) w = (None, w1, t1)"
      "ghGetFile nt ''photos.json'' w1 = (Inl e, w2)"
      "publishToGitHub nt st w = failed st w2 (t1 @ [GetFile ''photos.json'' (Inl e)]) e"
  | (put_threw) w1 t1 doc s w2 e w3 where "hasEdits st \<or> hasDeletes st"
      "deleteFiles nt (pendingDeletes st) w = (None, w1, t1)"
      "ghGetFile nt ''photos.json'' w1 = (Inr (doc, s), w2)"
      "ghPutFile nt ''photos.json'' (merged st) s ''Update photo metadata via admin panel'' w2 = (Inl e, w3)"
      "publishToGitHub nt st w =
         failed st w3 (t1 @ [GetFile ''photos.json'' (Inr (doc, s)),
                             PutFile ''photos.json'' (merged st) s ''Update photo metadata via admin panel'' (Inl e)]) e"
  | (sha_threw) w1 t1 doc s w2 res w3 m where "hasEdits st \<or> hasDeletes st"
      "deleteFiles nt (pendingDeletes st) w = (None, w1, t1)"
      "ghGetFile nt ''photos.json'' w1 = (Inr (doc, s), w2)"
      "ghPutFile nt ''photos.json'' (merged st) s ''Update photo metadata via admin panel'' w2 = (Inr res, w3)"
      "content_sha res = Inl m"
      "publishToGitHub nt st w =
         failed st w3 (t1 @ [GetFile ''photos.json'' (Inr (doc, s)),
                             PutFile ''photos.json'' (merged st) s ''Update photo metadata via admin panel'' (Inr res)])
           (Error m)"
  | (wrote) w1 t1 doc s w2 res w3 s' where "hasEdits st \<or> hasDeletes st"
      "deleteFiles nt (pendingDeletes st) w = (None, w1, t1)"
      "ghGetFile nt ''photos.json'' w1 = (Inr (doc, s), w2)"
      "ghPutFile nt ''photos.json'' (merged st) s ''Update photo metadata via admin panel'' w2 = (Inr res, w3)"
      "content_sha res = Inr s'"
      "publishToGitHub nt st w =
         \<lparr>final = commit s' (merged st) st, world = w3,
          calls = t1 @ [GetFile ''photos.json'' (Inr (doc, s)),
                        PutFile ''photos.json'' (merged st) s ''Update photo metadata via admin panel'' (Inr res)],
          toast = published\<rparr>"
proof (cases "\<not> hasEdits st \<and> \<not> hasDeletes st")
  case True
  then show ?thesis by (intro that(1)) (simp_all add: publishToGitHub_def)
next
  case False
  then have changes: "hasEdits st \<or> hasDeletes st" by simp
  obtain r w1 t1 where d: "deleteFiles nt (pendingDeletes st) w = (r, w1, t1)"
    by (cases "deleteFiles nt (pendingDeletes st) w") auto
  show ?thesis
  proof (cases r)
    case (Some e)
    with changes d show ?thesis
      by (intro that(2) [of e w1 t1]) (auto simp: publishToGitHub_def Let_def)
  next
    case None
    note d = d [unfolded None]
    obtain g w2 where g: "ghGetFile nt ''photos.json'' w1 = (g, w2)"
      by (cases "ghGetFile nt ''photos.json'' w1") auto
    show ?thesis
    proof (cases g)
      case (Inl e)
      with changes d g show ?thesis
        by (intro that(3) [of w1 t1 e w2]) (auto simp: publishToGitHub_def Let_def)
    next
      case (Inr ts)
      obtain doc s where ts: "ts = (doc, s)" by (cases ts) auto
      note g = g [unfolded Inr ts]
      obtain p w3 where p: "ghPutFile nt ''photos.json'' (merged st) s ''Update photo metadata via admin panel'' w2 = (p, w3)"
        by (cases "ghPutFile nt ''photos.json'' (merged st) s ''Update photo metadata via admin panel'' w2") auto
      show ?thesis
      proof (cases p)
        case (Inl e)
        with changes d g p show ?thesis
            by (intro that(4) [of w1 t1 doc s w2 e w3]) (auto simp: publishToGitHub_def Let_def)
      next
        case (Inr res)
        note p = p [unfolded Inr]
        show ?thesis
        proof (cases "content_sha res")
          case (Inl m)
          with changes d g p show ?thesis
            by (intro that(5) [of w1 t1 doc s w2 res w3 m]) (auto simp: publishToGitHub_def Let_def)
        next
          case (Inr s')
          with changes d g p show ?thesis
            by (intro that(6) [of w1 t1 doc s w2 res w3 s']) (auto simp: publishToGitHub_def Let_def)
        qed
      qed
    qed
  qed
qed

lemma publish_outcome:
  "final (publishToGitHub nt st w) = st \<and> toast (publishToGitHub nt st w) \<noteq> published
   \<or> (hasEdits st \<or> hasDeletes st) \<and> toast (publishToGitHub nt st w) = published
      \<and> (\<exists>s. final (publishToGitHub nt st w) = commit s (merged st) st)"
  by (cases rule: publish_cases [of st nt w])
     (auto simp: failed_def published_def nothing_to_publish_def)

text \<open>
  C1. When a publish gets as far as reading \<^verbatim>\<open>photos.json\<close> again and that read throws,
  or the read succeeds and the write with the tag it returned throws (a refused tag and
  a lost connection both make \<^verbatim>\<open>ghPutFile\<close> throw), the state after the publish is the
  state before it: the photo list, the staged edits, the staged deletions and therefore
  the merged list are unchanged. The error does not leave \<^verbatim>\<open>publishToGitHub\<close>: the call
  ends with the toast \<^verbatim>\<open>Publish failed:\<close> followed by the error's message.
\<close>

theorem failed_publish_keeps_state:
  assumes "hasEdits st \<or> hasDeletes st"
    and "deleteFiles nt (pendingDeletes st) w = (None, w1, t1)"
    and "ghGetFile nt ''photos.json'' w1 = (Inl e, w2) \<or>
         (\<exists>c s w'. ghGetFile nt ''photos.json'' w1 = (Inr (c, s), w') \<and>
            ghPutFile nt ''photos.json'' (merged st) s
              ''Update photo metadata via admin panel'' w' = (Inl e, w2))"
  shows "final (publishToGitHub nt st w) = st \<and>
         photos (final (publishToGitHub nt st w)) = photos st \<and>
         dirty (final (publishToGitHub nt st w)) = dirty st \<and>
         pendingDeletes (final (publishToGitHub nt st w)) = pendingDeletes st \<and>
         merged (final (publishToGitHub nt st w)) = merged st \<and>
         toast (publishToGitHub nt st w) = (''Publish failed: '' @ message e, ''error'')"
  using assms
  by (cases rule: publish_cases [of st nt w]) (auto simp: failed_def)

theorem failed_publish_keeps_state_witness:
  "dirty (final (publishToGitHub conflicting edited 0)) = [(''a'', photo_a\<lparr>title := Some ''New''\<rparr>)] \<and>
   photos (final (publishToGitHub conflicting edited 0)) = [Rec photo_a, Rec photo_b] \<and>
   toast (publishToGitHub conflicting edited 0) =
     (''Publish failed: GitHub: photos.json does not match'', ''error'')"
proof -
  have h1: "hasEdits edited \<or> hasDeletes edited"
    by (simp add: hasEdits_def edited_eq)
  have h2: "deleteFiles conflicting (pendingDeletes edited) 0 = (None, 0, [])"
    by (simp add: edited_eq)
  have h3: "ghGetFile conflicting ''photos.json'' 0 =
              (Inl (Error ''GitHub: photos.json does not match''), 2) \<or>
            (\<exists>c s w'. ghGetFile conflicting ''photos.json'' 0 = (Inr (c, s), w') \<and>
               ghPutFile conflicting ''photos.json'' (merged edited) s
                 ''Update photo metadata via admin panel'' w' =
               (Inl (Error ''GitHub: photos.json does not match''), 2))"
    by (simp add: get_manifest_v1 put_refused)
  show ?thesis
    using failed_publish_keeps_state [OF h1 h2 h3] by (simp add: edited_eq)
qed

text \<open>
  A publish with something staged that ends with the success toast wrote \<open>merged\<close> to
  \<^verbatim>\<open>photos.json\<close> in its last call; afterwards the photo list is that written list,
  nothing is staged and the stored tag is \<^verbatim>\<open>content.sha\<close> of the answer to the write.
\<close>

lemma publish_commits_merged:
  assumes "hasEdits st \<or> hasDeletes st"
    and "toast (publishToGitHub nt st w) = published"
  shows "\<exists>s res.
           calls (publishToGitHub nt st w) \<noteq> [] \<and>
           last (calls (publishToGitHub nt st w)) =
             PutFile ''photos.json'' (merged st) s ''Update photo metadata via admin panel''
               (Inr res) \<and>
           content_sha res = Inr (sha (final (publishToGitHub nt st w))) \<and>
           photos (final (publishToGitHub nt st w)) = merged st \<and>
           dirty (final (publishToGitHub nt st w)) = [] \<and>
           pendingDeletes (final (publishToGitHub nt st w)) = [] \<and>
           pendingChangeCount (final (publishToGitHub nt st w)) = 0"
  using assms
  by (cases rule: publish_cases [of st nt w])
     (auto simp: failed_def published_def nothing_to_publish_def commit_def
                 pendingChangeCount_def)

text \<open>
  \<open>merged\<close> is the merged manifest of the specification when the prototype of
  \<^verbatim>\<open>state.dirty\<close> was not replaced and no photo of the list has an id that names a member
  of \<^verbatim>\<open>Object.prototype\<close>.
\<close>

lemma merged_overlaid:
  assumes "proto st = None"
    and "\<forall>p \<in> set (photos st). key_of (id_of p) \<notin> set object_members"
  shows "merged st = overlaid st"
  unfolding merged_def overlaid_def
  by (rule map_cong [OF refl])
     (use assms in \<open>auto simp: read_def inherited_def object_members_def split: option.splits\<close>)

text \<open>
  C2 fails on the code. A session loads a manifest whose first photo has the id
  \<^verbatim>\<open>constructor\<close>, stages an edit of the second photo and publishes to a remote side that
  accepts everything. Nothing is staged under \<^verbatim>\<open>constructor\<close>, so in the merged manifest
  of the specification the first record is the loaded one. The publish ends with the
  success toast, but what it wrote and what it installed as the photo list has the
  inherited member \<^verbatim>\<open>Object\<close> (in the file: \<^verbatim>\<open>null\<close>) in the place of that record.
\<close>

theorem publish_commits_inherited_member:
  "photos edited_c = [Rec photo_c, Rec photo_b] \<and>
   dirty edited_c = [(''b'', photo_b\<lparr>title := Some ''New''\<rparr>)] \<and>
   toast (publishToGitHub accepting edited_c 0) = published \<and>
   overlaid edited_c = [Rec photo_c, Rec (photo_b\<lparr>title := Some ''New''\<rparr>)] \<and>
   last (calls (publishToGitHub accepting edited_c 0)) =
     PutFile ''photos.json'' [Builtin ''constructor'', Rec (photo_b\<lparr>title := Some ''New''\<rparr>)]
       (Some ''v1'') ''Update photo metadata via admin panel''
       (Inr \<lparr>content_sha = Inr (Some ''v2'')\<rparr>) \<and>
   photos (final (publishToGitHub accepting edited_c 0)) =
     [Builtin ''constructor'', Rec (photo_b\<lparr>title := Some ''New''\<rparr>)] \<and>
   pendingChangeCount (final (publishToGitHub accepting edited_c 0)) = 0 \<and>
   merged (final (publishToGitHub accepting edited_c 0)) =
     [Builtin ''constructor'', Rec (photo_b\<lparr>title := Some ''New''\<rparr>)]"
proof -
  have "overlaid edited_c = [Rec photo_c, Rec (photo_b\<lparr>title := Some ''New''\<rparr>)]"
    by (simp add: edited_c_eq overlaid_def photo_c_def photo_b_def empty_photo_def)
  moreover have "photos edited_c = [Rec photo_c, Rec photo_b]"
    "dirty edited_c = [(''b'', photo_b\<lparr>title := Some ''New''\<rparr>)]"
    by (simp_all add: edited_c_eq)
  moreover have
    "merged \<lparr>photos = [Builtin ''constructor'', Rec (photo_b\<lparr>title := Some ''New''\<rparr>)],
             dirty = [], proto = None, pendingDeletes = [], sha = Some ''v2'',
             selected = Some ''b''\<rparr> =
       [Builtin ''constructor'', Rec (photo_b\<lparr>title := Some ''New''\<rparr>)]"
    by (simp add: merged_def read_def inherited_def field_of_def object_members_def photo_b_def
          empty_photo_def)
  ultimately show ?thesis
    by (simp add: publish_edited_c_accepting pendingChangeCount_def)
qed

text \<open>
  C5. Whenever a publish calls \<^verbatim>\<open>ghPutFile\<close>, the calls it made are the deletions,
  then one \<^verbatim>\<open>ghGetFile\<close> of \<^verbatim>\<open>photos.json\<close>, then that \<^verbatim>\<open>ghPutFile\<close>, and the tag passed to
  \<^verbatim>\<open>ghPutFile\<close> is the tag that \<^verbatim>\<open>ghGetFile\<close> returned in the world the deletions left.
  The tag stored at load time plays no part: with any other value in \<^verbatim>\<open>state.sha\<close> the
  publish makes the same calls.
\<close>

theorem put_uses_fresh_tag:
  "(PutFile p c s msg res \<in> set (calls (publishToGitHub nt st w)) \<longrightarrow>
      (\<exists>w1 t1 doc w2.
         deleteFiles nt (pendingDeletes st) w = (None, w1, t1) \<and>
         (\<forall>ev \<in> set t1. is_delete ev) \<and>
         ghGetFile nt ''photos.json'' w1 = (Inr (doc, s), w2) \<and>
         calls (publishToGitHub nt st w) =
           t1 @ [GetFile ''photos.json'' (Inr (doc, s)), PutFile p c s msg res])) \<and>
   calls (publishToGitHub nt (st\<lparr>sha := x\<rparr>) w) = calls (publishToGitHub nt st w)"
proof (intro conjI impI)
  assume put: "PutFile p c s msg res \<in> set (calls (publishToGitHub nt st w))"
  show "\<exists>w1 t1 doc w2.
         deleteFiles nt (pendingDeletes st) w = (None, w1, t1) \<and>
         (\<forall>ev \<in> set t1. is_delete ev) \<and>
         ghGetFile nt ''photos.json'' w1 = (Inr (doc, s), w2) \<and>
         calls (publishToGitHub nt st w) =
           t1 @ [GetFile ''photos.json'' (Inr (doc, s)), PutFile p c s msg res]"
    using put
    by (cases rule: publish_cases [of st nt w])
       (use deleteFiles_only_deletes [of nt "pendingDeletes st" w] in
        \<open>auto simp: failed_def\<close>)
next
  have same: "hasEdits (st\<lparr>sha := x\<rparr>) = hasEdits st" "hasDeletes (st\<lparr>sha := x\<rparr>) = hasDeletes st"
    "merged (st\<lparr>sha := x\<rparr>) = merged st"
    by (simp_all add: hasEdits_def hasDeletes_def merged_def)
  show "calls (publishToGitHub nt (st\<lparr>sha := x\<rparr>) w) = calls (publishToGitHub nt st w)"
    by (simp add: publishToGitHub_def same failed_def Let_def
             split: prod.split option.split sum.split)
qed

theorem put_uses_fresh_tag_witness:
  "PutFile ''photos.json'' [Rec (photo_a\<lparr>title := Some ''New''\<rparr>), Rec photo_b] (Some ''v1'')
     ''Update photo metadata via admin panel'' (Inr \<lparr>content_sha = Inr (Some ''v2'')\<rparr>)
     \<in> set (calls (publishToGitHub accepting edited 0)) \<and>
   (\<exists>w1 t1 doc w2.
      ghGetFile accepting ''photos.json'' w1 = (Inr (doc, Some ''v1''), w2) \<and>
      calls (publishToGitHub accepting edited 0) =
        t1 @ [GetFile ''photos.json'' (Inr (doc, Some ''v1'')),
              PutFile ''photos.json'' [Rec (photo_a\<lparr>title := Some ''New''\<rparr>), Rec photo_b] (Some ''v1'')
                ''Update photo metadata via admin panel''
                (Inr \<lparr>content_sha = Inr (Some ''v2'')\<rparr>)])"
proof -
  have h: "PutFile ''photos.json'' [Rec (photo_a\<lparr>title := Some ''New''\<rparr>), Rec photo_b] (Some ''v1'')
             ''Update photo metadata via admin panel'' (Inr \<lparr>content_sha = Inr (Some ''v2'')\<rparr>)
           \<in> set (calls (publishToGitHub accepting edited 0))"
    by (simp add: publish_edited_accepting)
  from put_uses_fresh_tag [of "''photos.json''" "[Rec (photo_a\<lparr>title := Some ''New''\<rparr>), Rec photo_b]"
      "Some ''v1''" "''Update photo metadata via admin panel''"
      "Inr \<lparr>content_sha = Inr (Some ''v2'')\<rparr>" accepting edited 0 None] h
  show ?thesis by blast
qed

section \<open>The deletion phase of a publish\<close>

lemma ghDeleteFile_throws:
  "ghDeleteFile nt p msg w = (Some e, w') \<longleftrightarrow>
     (\<exists>data w1 m. http_get nt p w = (Ok (Inr data), w1) \<and>
        http_delete nt p \<lparr>del_message = msg, del_sha = f_sha data\<rparr> w1 = (Rejected m, w') \<and>
        e = Error m)"
  by (auto simp: ghDeleteFile_def split: prod.splits response.splits sum.splits)

lemma delete_if_local_paths:
  assumes "delete_if_local nt p msg w = (r, w', t)"
  shows "deleted_paths t = local_path p"
  using assms
  by (cases p) (auto simp: delete_if_local_def deleted_paths_def split: prod.splits if_splits)

text \<open>
  The deletion loop calls \<^verbatim>\<open>ghDeleteFile\<close> for the local paths of the photos staged for
  deletion, in order, \<^verbatim>\<open>src\<close> before \<^verbatim>\<open>thumb\<close>: for all of them when no call throws, and
  for those up to the throwing call otherwise.
\<close>

lemma deleteFiles_paths:
  assumes "deleteFiles nt ps w = (r, w', t)"
  shows "(r = None \<longrightarrow> deleted_paths t = concat (map local_paths ps)) \<and>
         (\<exists>rest. concat (map local_paths ps) = deleted_paths t @ rest)"
  using assms
proof (induction ps arbitrary: w r w' t)
  case Nil
  then show ?case by (simp add: deleted_paths_def)
next
  case (Cons p ps)
  obtain r1 w1 t1 where a:
    "delete_if_local nt (src_of p) (''Remove '' @ key_of (id_of p) @ '' upload'') w = (r1, w1, t1)"
    by (metis prod_cases3)
  note pa = delete_if_local_paths [OF a]
  show ?case
  proof (cases r1)
    case (Some e)
    with Cons.prems a pa show ?thesis
      by (auto simp: local_paths_def)
  next
    case None
    obtain r2 w2 t2 where b:
      "delete_if_local nt (thumb_of p) (''Remove '' @ key_of (id_of p) @ '' thumbnail'') w1 = (r2, w2, t2)"
      by (metis prod_cases3)
    note pb = delete_if_local_paths [OF b]
    show ?thesis
    proof (cases r2)
      case (Some e)
      with Cons.prems a b pa pb None show ?thesis
        by (auto simp: local_paths_def deleted_paths_def)
    next
      case n2: None
      obtain r3 w3 t3 where c: "deleteFiles nt ps w2 = (r3, w3, t3)"
        by (metis prod_cases3)
      from Cons.IH [OF c] Cons.prems a b c pa pb None n2 show ?thesis
        by (auto simp: local_paths_def deleted_paths_def)
    qed
  qed
qed

text \<open>
  When a publish reaches the write of the manifest, every local path of every photo
  staged for deletion was passed to \<^verbatim>\<open>ghDeleteFile\<close> before, and nothing else was.
\<close>

lemma deletions_precede_the_write:
  assumes "PutFile p c s msg res \<in> set (calls (publishToGitHub nt st w))"
  shows "\<exists>t1 doc.
           calls (publishToGitHub nt st w) =
             t1 @ [GetFile ''photos.json'' (Inr (doc, s)), PutFile p c s msg res] \<and>
           (\<forall>ev \<in> set t1. is_delete ev) \<and>
           deleted_paths t1 = concat (map local_paths (pendingDeletes st))"
  using assms
  by (cases rule: publish_cases [of st nt w])
     (use deleteFiles_only_deletes [of nt "pendingDeletes st" w]
          deleteFiles_paths [of nt "pendingDeletes st" w] in
      \<open>auto simp: failed_def\<close>)

lemma dropped_delete:
  "ghDeleteFile dropping p msg w = (Some (Error ''Failed to fetch''), w + 2)"
  by (simp add: net_defs)

text \<open>
  C7 fails on the code. With one photo staged for deletion whose upload is in the
  repository, and a connection that drops at the DELETE request, \<^verbatim>\<open>ghDeleteFile\<close> throws,
  the publish ends in its \<^verbatim>\<open>catch\<close> after that one call, and \<^verbatim>\<open>photos.json\<close> is neither read
  nor written.
\<close>

theorem rejected_delete_aborts_publish:
  "publishToGitHub dropping edited_then_deleted 0 =
     \<lparr>final = edited_then_deleted, world = 2,
      calls = [DeleteFile ''photos/uploads/a.jpg'' ''Remove a upload''
                 (Some (Error ''Failed to fetch''))],
      toast = (''Publish failed: Failed to fetch'', ''error'')\<rparr>"
proof -
  have "hasDeletes edited_then_deleted"
    by (simp add: hasDeletes_def edited_then_deleted_eq)
  moreover have "deleteFiles dropping (pendingDeletes edited_then_deleted) 0 =
      (Some (Error ''Failed to fetch''), 2,
       [DeleteFile ''photos/uploads/a.jpg'' ''Remove a upload'' (Some (Error ''Failed to fetch''))])"
    by (simp add: edited_then_deleted_eq photo_a_def empty_photo_def delete_if_local_def
          dropped_delete)
  ultimately show ?thesis
    by (simp add: publishToGitHub_def failed_def)
qed

text \<open>
  C6 fails on the code for the same reason. With two photos staged for deletion, three
  of whose paths are local, and a connection that drops at the DELETE request,
  \<^verbatim>\<open>ghDeleteFile\<close> is called for the first path only.
\<close>

theorem rejected_delete_skips_later_files:
  "concat (map local_paths (pendingDeletes both_deleted)) =
     [''photos/uploads/a.jpg'', ''photos/uploads/b.jpg'', ''photos/thumbs/b.jpg''] \<and>
   deleted_paths (calls (publishToGitHub dropping both_deleted 0)) = [''photos/uploads/a.jpg'']"
proof -
  have "hasDeletes both_deleted"
    by (simp add: hasDeletes_def both_deleted_eq)
  moreover have "deleteFiles dropping (pendingDeletes both_deleted) 0 =
      (Some (Error ''Failed to fetch''), 2,
       [DeleteFile ''photos/uploads/a.jpg'' ''Remove a upload'' (Some (Error ''Failed to fetch''))])"
    by (simp add: both_deleted_eq photo_a_def photo_b_def empty_photo_def delete_if_local_def
          dropped_delete)
  ultimately have "calls (publishToGitHub dropping both_deleted 0) =
      [DeleteFile ''photos/uploads/a.jpg'' ''Remove a upload'' (Some (Error ''Failed to fetch''))]"
    by (simp add: publishToGitHub_def failed_def)
  then show ?thesis
    by (simp add: deleted_paths_def both_deleted_eq local_paths_def photo_a_def photo_b_def
          empty_photo_def)
qed


section \<open>Staging edits and deletions\<close>


lemma set_update_cases:
  "(k, v) \<in> set (AList.update i x al) \<Longrightarrow> (k, v) = (i, x) \<or> (k, v) \<in> set al"
  by (induction al) (auto split: if_splits)

lemma delete_member: "(k, v) \<in> set (AList.delete i al) \<Longrightarrow> k \<noteq> i \<and> (k, v) \<in> set al"
  by (auto simp: AList.delete_eq)


lemma pid_spread: "pid (spread b partial) = pid b"
  by (simp add: spread_def)

lemma find_photo_Some: "find_photo i ps = Some p \<Longrightarrow> id_of p = Some i \<and> p \<in> set ps"
  by (auto simp: find_photo_def find_Some_iff)

lemma find_photo_None: "find_photo i ps = None \<longleftrightarrow> Some i \<notin> set (map id_of ps)"
  by (force simp: find_photo_def find_None_iff)

lemma read_cases:
  obtains (staged) v where "read d pr k = Some (Rec v)" "(k, v) \<in> set d"
  | (prototype) ob where "read d pr k = Some (Rec ob)" "pr = Some ob" "k = ''__proto__''"
  | (inherited) n where "read d pr k = Some (Builtin n)"
  | (val) x where "read d pr k = Some (Prim x)"
  | (undefined) "read d pr k = None"
proof (cases "map_of d k")
  case (Some v)
  then have "read d pr k = Some (Rec v)" "(k, v) \<in> set d"
    by (simp_all add: read_def map_of_SomeD)
  then show ?thesis by (rule staged)
next
  case None
  then have r: "read d pr k = inherited pr k"
    by (simp add: read_def)
  show ?thesis
  proof (cases "k = ''__proto__''")
    case True
    show ?thesis
    proof (cases pr)
      case None
      with True r have "read d pr k = Some (Builtin k)" by (simp add: inherited_def)
      then show ?thesis by (rule inherited)
    next
      case (Some ob)
      with True r have "read d pr k = Some (Rec ob)" by (simp add: inherited_def)
      from this Some True show ?thesis by (rule prototype)
    qed
  next
    case False
    show ?thesis
    proof (cases "case pr of Some ob \<Rightarrow> field_of k ob | None \<Rightarrow> None")
      case (Some x)
      with False r have "read d pr k = Some (Prim x)" by (simp add: inherited_def)
      then show ?thesis by (rule val)
    next
      case None
      show ?thesis
      proof (cases "k \<in> set object_members")
        case True
        with None False r have "read d pr k = Some (Builtin k)" by (simp add: inherited_def)
        then show ?thesis by (rule inherited)
      next
        case no: False
        with None False r have "read d pr k = None" by (simp add: inherited_def)
        then show ?thesis by (rule undefined)
      qed
    qed
  qed
qed

lemma find_selected_Some:
  "find_selected s ps = Some p \<Longrightarrow> \<exists>i. s = Some i \<and> id_of p = Some i \<and> p \<in> set ps"
  by (cases s) (auto dest: find_photo_Some)

text \<open>
  The base that \<^verbatim>\<open>applyDraft\<close> spreads the draft over is an object staged before, the
  object installed as the prototype, a photo of the list with the selected id, or an
  object without an id.
\<close>

lemma base_cases:
  "(selected_key (selected st), draft_base st) \<in> set (dirty st) \<or>
   proto st = Some (draft_base st) \<or>
   (\<exists>i. selected st = Some i \<and> Rec (draft_base st) \<in> set (photos st) \<and>
        pid (draft_base st) = Some i) \<or>
   pid (draft_base st) = None"
proof -
  let ?fb = "case find_selected (selected st) (photos st) of
               Some p \<Rightarrow> own_props p | None \<Rightarrow> empty_photo"
  have fb: "(\<exists>i. selected st = Some i \<and> Rec ?fb \<in> set (photos st) \<and> pid ?fb = Some i) \<or>
            pid ?fb = None"
  proof (cases "find_selected (selected st) (photos st)")
    case None
    then show ?thesis by (simp add: empty_photo_def)
  next
    case (Some p)
    from find_selected_Some [OF Some] obtain i where
      "selected st = Some i" "id_of p = Some i" "p \<in> set (photos st)"
      by blast
    with Some show ?thesis by (cases p) simp_all
  qed
  show ?thesis
  proof (cases rule: read_cases [of "dirty st" "proto st" "selected_key (selected st)"])
    case (staged v)
    then show ?thesis by (simp add: draft_base_def)
  next
    case (prototype ob)
    then show ?thesis by (simp add: draft_base_def)
  next
    case (inherited n)
    then show ?thesis by (simp add: draft_base_def empty_photo_def)
  next
    case (val x)
    show ?thesis
    proof (cases "truthy_item (Prim x)")
      case True
      with val show ?thesis by (simp add: draft_base_def empty_photo_def)
    next
      case False
      with val have "draft_base st = ?fb" by (simp add: draft_base_def)
      with fb show ?thesis by simp
    qed
  next
    case undefined
    then have "draft_base st = ?fb" by (simp add: draft_base_def)
    with fb show ?thesis by simp
  qed
qed

text \<open>
  Under the key \<^verbatim>\<open>__proto__\<close>, which is no property of \<^verbatim>\<open>state.dirty\<close> itself, the base is
  the prototype.
\<close>

lemma base_of_proto:
  assumes "selected_key (selected st) = ''__proto__''"
    and "''__proto__'' \<notin> fst ` set (dirty st)"
  shows "draft_base st = (case proto st of Some ob \<Rightarrow> ob | None \<Rightarrow> empty_photo)"
proof -
  from assms(2) have "map_of (dirty st) ''__proto__'' = None"
    by (simp add: map_of_eq_None_iff)
  with assms(1) show ?thesis
    by (cases "proto st") (simp_all add: draft_base_def read_def inherited_def)
qed

text \<open>What \<^verbatim>\<open>applyDraft\<close> changes.\<close>

lemma applyDraft_keeps:
  "photos (applyDraft partial st) = photos st"
  "pendingDeletes (applyDraft partial st) = pendingDeletes st"
  "selected (applyDraft partial st) = selected st"
  "sha (applyDraft partial st) = sha st"
  by (simp_all add: applyDraft_def)

lemma applyDraft_dirty:
  assumes "(k, v) \<in> set (dirty (applyDraft partial st))"
  shows "(k, v) = (selected_key (selected st), spread (draft_base st) partial) \<and>
           k \<noteq> ''__proto__'' \<or>
         (k, v) \<in> set (dirty st)"
proof (cases "selected_key (selected st) = ''__proto__''")
  case True
  with assms show ?thesis by (simp add: applyDraft_def)
next
  case False
  with assms have "(k, v) \<in> set (AList.update (selected_key (selected st))
      (spread (draft_base st) partial) (dirty st))"
    by (simp add: applyDraft_def)
  then have "(k, v) = (selected_key (selected st), spread (draft_base st) partial) \<or>
      (k, v) \<in> set (dirty st)"
    by (rule set_update_cases)
  with False show ?thesis by auto
qed

lemma applyDraft_proto:
  assumes "proto (applyDraft partial st) = Some ob"
  shows "ob = spread (draft_base st) partial \<and> selected_key (selected st) = ''__proto__'' \<or>
         proto st = Some ob"
  using assms by (cases "selected_key (selected st) = ''__proto__''") (auto simp: applyDraft_def)

lemma stageEdit_eq:
  assumes "i \<noteq> ''__proto__''"
  shows "stageEdit i partial st =
           st\<lparr>selected := Some i,
              dirty := AList.update i (spread (draft_base (selectPhoto i st)) partial)
                         (dirty st)\<rparr>"
  using assms by (simp add: stageEdit_def applyDraft_def selectPhoto_def)

lemma overlay_keyedI:
  assumes "\<And>k v. (k, v) \<in> set (dirty st) \<Longrightarrow>
             pid v = None \<or> (pid v = Some k \<and> Some k \<in> set (map id_of (photos st)))"
    and "\<And>ob. proto st = Some ob \<Longrightarrow> pid ob = None"
    and "''__proto__'' \<notin> fst ` set (dirty st)"
  shows "overlay_keyed st"
  unfolding overlay_keyed_def using assms by blast

lemma overlay_keyedD:
  assumes "overlay_keyed st" and "(k, v) \<in> set (dirty st)"
  shows "pid v = None \<or> (pid v = Some k \<and> Some k \<in> set (map id_of (photos st)))"
  using assms by (auto simp: overlay_keyed_def)

lemma overlay_keyed_proto: "overlay_keyed st \<Longrightarrow> proto st = Some ob \<Longrightarrow> pid ob = None"
  by (simp add: overlay_keyed_def)

lemma overlay_keyed_own: "overlay_keyed st \<Longrightarrow> ''__proto__'' \<notin> fst ` set (dirty st)"
  by (simp add: overlay_keyed_def)

lemma overlay_keyed_empty: "dirty st = [] \<Longrightarrow> proto st = None \<Longrightarrow> overlay_keyed st"
  by (simp add: overlay_keyed_def)

lemma overlay_keyed_applyDraft:
  assumes "overlay_keyed st"
  shows "overlay_keyed (applyDraft partial st)"
proof (rule overlay_keyedI)
  fix k v
  assume "(k, v) \<in> set (dirty (applyDraft partial st))"
  from applyDraft_dirty [OF this]
  have "pid v = None \<or> (pid v = Some k \<and> Some k \<in> set (map id_of (photos st)))"
  proof
    assume new: "(k, v) = (selected_key (selected st), spread (draft_base st) partial) \<and>
        k \<noteq> ''__proto__''"
    from base_cases [of st]
    have "pid (draft_base st) = None \<or>
        (pid (draft_base st) = Some k \<and> Some k \<in> set (map id_of (photos st)))"
    proof (elim disjE exE conjE)
      assume "(selected_key (selected st), draft_base st) \<in> set (dirty st)"
      with new have "(k, draft_base st) \<in> set (dirty st)" by simp
      from overlay_keyedD [OF assms this] show ?thesis .
    next
      assume "proto st = Some (draft_base st)"
      from overlay_keyed_proto [OF assms this] show ?thesis by simp
    next
      fix i
      assume i: "selected st = Some i" and "Rec (draft_base st) \<in> set (photos st)"
        and b: "pid (draft_base st) = Some i"
      then have "id_of (Rec (draft_base st)) \<in> set (map id_of (photos st))"
        by (simp del: id_of.simps)
      with new i b show ?thesis by simp
    next
      assume "pid (draft_base st) = None"
      then show ?thesis by simp
    qed
    with new show ?thesis by (simp add: pid_spread)
  next
    assume "(k, v) \<in> set (dirty st)"
    from overlay_keyedD [OF assms this] show ?thesis .
  qed
  then show "pid v = None \<or>
      (pid v = Some k \<and> Some k \<in> set (map id_of (photos (applyDraft partial st))))"
    by (simp add: applyDraft_keeps)
next
  fix ob
  assume "proto (applyDraft partial st) = Some ob"
  from applyDraft_proto [OF this] show "pid ob = None"
  proof
    assume new: "ob = spread (draft_base st) partial \<and>
        selected_key (selected st) = ''__proto__''"
    then have "draft_base st = (case proto st of Some ob \<Rightarrow> ob | None \<Rightarrow> empty_photo)"
      by (intro base_of_proto overlay_keyed_own [OF assms]) simp
    then have "pid (draft_base st) = None"
      using overlay_keyed_proto [OF assms]
      by (cases "proto st") (simp_all add: empty_photo_def)
    with new show ?thesis by (simp add: pid_spread)
  next
    assume "proto st = Some ob"
    from overlay_keyed_proto [OF assms this] show ?thesis .
  qed
next
  show "''__proto__'' \<notin> fst ` set (dirty (applyDraft partial st))"
  proof
    assume "''__proto__'' \<in> fst ` set (dirty (applyDraft partial st))"
    then obtain v where "(''__proto__'', v) \<in> set (dirty (applyDraft partial st))"
      by force
    from applyDraft_dirty [OF this] have "(''__proto__'', v) \<in> set (dirty st)"
      by simp
    then have "''__proto__'' \<in> fst ` set (dirty st)" by force
    with overlay_keyed_own [OF assms] show False by simp
  qed
qed

lemma overlay_keyed_markForDelete:
  assumes "overlay_keyed st"
  shows "overlay_keyed (markForDelete c i st)"
proof (cases "find_photo i (photos st) = None \<or> \<not> c")
  case True
  then have "markForDelete c i st = st"
    by (auto simp: markForDelete_def split: option.splits)
  with assms show ?thesis by simp
next
  case False
  then obtain p where st': "markForDelete c i st =
      st\<lparr>pendingDeletes := pendingDeletes st @ [p],
         photos := filter (\<lambda>q. id_of q \<noteq> Some i) (photos st),
         dirty := AList.delete i (dirty st), selected := None\<rparr>"
    by (auto simp: markForDelete_def)
  show ?thesis
  proof (rule overlay_keyedI)
    fix k v
    assume "(k, v) \<in> set (dirty (markForDelete c i st))"
    then have "(k, v) \<in> set (AList.delete i (dirty st))"
      by (simp add: st')
    then have "k \<noteq> i" and "(k, v) \<in> set (dirty st)"
      by (auto dest: delete_member)
    with overlay_keyedD [OF assms, of k v]
    show "pid v = None \<or>
        (pid v = Some k \<and> Some k \<in> set (map id_of (photos (markForDelete c i st))))"
      by (auto simp: st')
  next
    fix ob
    assume "proto (markForDelete c i st) = Some ob"
    then have "proto st = Some ob" by (simp add: st')
    from overlay_keyed_proto [OF assms this] show "pid ob = None" .
  next
    show "''__proto__'' \<notin> fst ` set (dirty (markForDelete c i st))"
      using overlay_keyed_own [OF assms] by (auto simp: st' dest: delete_member)
  qed
qed

lemma overlay_keyed_revert:
  assumes "overlay_keyed st"
  shows "overlay_keyed (revert i st)"
proof (rule overlay_keyedI)
  fix k v
  assume "(k, v) \<in> set (dirty (revert i st))"
  then have "(k, v) \<in> set (AList.delete i (dirty st))"
    by (simp add: revert_def)
  then have "(k, v) \<in> set (dirty st)"
    by (auto dest: delete_member)
  from overlay_keyedD [OF assms this]
  show "pid v = None \<or> (pid v = Some k \<and> Some k \<in> set (map id_of (photos (revert i st))))"
    by (simp add: revert_def)
next
  fix ob
  assume "proto (revert i st) = Some ob"
  then have "proto st = Some ob" by (simp add: revert_def)
  from overlay_keyed_proto [OF assms this] show "pid ob = None" .
next
  show "''__proto__'' \<notin> fst ` set (dirty (revert i st))"
    using overlay_keyed_own [OF assms] by (auto simp: revert_def dest: delete_member)
qed

lemma overlay_keyed_selectPhoto: "overlay_keyed st \<Longrightarrow> overlay_keyed (selectPhoto i st)"
  by (simp add: overlay_keyed_def selectPhoto_def)

text \<open>
  In every session a staged object is filed under its own id, if it has one, and the
  prototype of \<^verbatim>\<open>state.dirty\<close> has no id.
\<close>

lemma reachable_keyed: "reachable s \<Longrightarrow> overlay_keyed (fst s)"
proof (induction rule: reachable.induct)
  case fresh
  show ?case by (simp add: overlay_keyed_empty init_def)
next
  case (loaded st fs s m)
  show ?case by (simp add: overlay_keyed_empty startAdmin_def)
next
  case (chosen st fs i)
  then show ?case by (simp add: overlay_keyed_selectPhoto)
next
  case (drafted st fs partial)
  then show ?case by (simp add: overlay_keyed_applyDraft)
next
  case (delete st fs c i)
  then show ?case by (simp add: overlay_keyed_markForDelete)
next
  case (reverted st fs i)
  then show ?case by (simp add: overlay_keyed_revert)
next
  case (taken st fs)
  then show ?case by simp
next
  case (committed st fs m s)
  show ?case by (simp add: overlay_keyed_empty commit_def)
next
  case (abandoned st fs m)
  then show ?case by simp
qed

lemma reachable_stageEdit:
  assumes "reachable (st, fs)"
  shows "reachable (stageEdit i partial st, fs)"
  unfolding stageEdit_def by (intro reachable.drafted reachable.chosen assms)


text \<open>
  An entry of \<open>merged\<close> is the photo in its place, a staged object, the object installed
  as the prototype, or a value without an id.
\<close>

lemma merged_entry:
  assumes "x \<in> set (merged st)"
  shows "x \<in> set (photos st) \<or> (\<exists>k v. x = Rec v \<and> (k, v) \<in> set (dirty st)) \<or>
         (\<exists>ob. x = Rec ob \<and> proto st = Some ob) \<or> id_of x = None"
proof -
  from assms obtain p where p: "p \<in> set (photos st)"
    and x: "x = (case read (dirty st) (proto st) (key_of (id_of p)) of
                   Some y \<Rightarrow> y | None \<Rightarrow> p)"
    by (auto simp: merged_def)
  show ?thesis
    by (cases rule: read_cases [of "dirty st" "proto st" "key_of (id_of p)"])
       (use p x in auto)
qed

text \<open>
  In a session the merged list is as long as the photo list and has no id that the
  photo list does not have.
\<close>

lemma merged_adds_no_id:
  assumes "reachable (st, fs)"
  shows "length (merged st) = length (photos st) \<and>
         set (map id_of (merged st)) \<subseteq> insert None (set (map id_of (photos st)))"
proof
  show "length (merged st) = length (photos st)"
    by (simp add: merged_def)
  from reachable_keyed [OF assms] have keyed: "overlay_keyed st" by simp
  show "set (map id_of (merged st)) \<subseteq> insert None (set (map id_of (photos st)))"
  proof
    fix j
    assume "j \<in> set (map id_of (merged st))"
    then obtain x where x: "x \<in> set (merged st)" and j: "j = id_of x"
      by auto
    from merged_entry [OF x] show "j \<in> insert None (set (map id_of (photos st)))"
    proof (elim disjE exE conjE)
      assume "x \<in> set (photos st)"
      with j show ?thesis by simp
    next
      fix k v
      assume "x = Rec v" and "(k, v) \<in> set (dirty st)"
      with overlay_keyedD [OF keyed, of k v] j show ?thesis by auto
    next
      fix ob
      assume "x = Rec ob" and "proto st = Some ob"
      with overlay_keyed_proto [OF keyed, of ob] j show ?thesis by simp
    next
      assume "id_of x = None"
      with j show ?thesis by simp
    qed
  qed
qed




















lemma reachable_edited: "reachable (edited, [])"
  unfolding edited_def loaded_def
  by (intro reachable_stageEdit reachable.loaded reachable.fresh)



text \<open>
  Without the proviso on a suspended publish the id comes back. A publish computes
  \<^verbatim>\<open>merged\<close> while the second photo is listed and is suspended at its \<^verbatim>\<open>await\<close>; the user
  deletes the second photo; the publish succeeds and assigns its array to
  \<^verbatim>\<open>state.photos\<close>. The photo is listed again and nothing is staged for deletion.
\<close>

lemma deletion_during_publish_is_undone:
  "reachable (markForDelete True ''b'' edited, [merged edited]) \<and>
   pendingDeletes (markForDelete True ''b'' edited) = [Rec photo_b] \<and>
   Some ''b'' \<notin> set (map id_of (photos (markForDelete True ''b'' edited))) \<and>
   later (markForDelete True ''b'' edited, [merged edited])
     (commit (Some ''v2'') (merged edited) (markForDelete True ''b'' edited), []) \<and>
   photos (commit (Some ''v2'') (merged edited) (markForDelete True ''b'' edited)) =
     [Rec (photo_a\<lparr>title := Some ''New''\<rparr>), Rec photo_b] \<and>
   pendingDeletes (commit (Some ''v2'') (merged edited) (markForDelete True ''b'' edited)) = []"
proof -
  have "reachable (edited, [merged edited])"
    by (rule reachable.taken [OF reachable_edited])
  then have r: "reachable (markForDelete True ''b'' edited, [merged edited])"
    by (rule reachable.delete)
  have "later (markForDelete True ''b'' edited, [merged edited])
     (commit (Some ''v2'') (merged edited) (markForDelete True ''b'' edited),
      remove1 (merged edited) [merged edited])"
    by (intro later.committed later.now) simp
  then have l: "later (markForDelete True ''b'' edited, [merged edited])
     (commit (Some ''v2'') (merged edited) (markForDelete True ''b'' edited), [])"
    by simp
  have d: "markForDelete True ''b'' edited =
     \<lparr>photos = [Rec photo_a], dirty = [(''a'', photo_a\<lparr>title := Some ''New''\<rparr>)],
      proto = None, pendingDeletes = [Rec photo_b], sha = Some ''v1'', selected = None\<rparr>"
    by (simp add: edited_eq markForDelete_def find_photo_def photo_a_def photo_b_def
          empty_photo_def)
  from r l show ?thesis
    by (simp add: merged_edited commit_def) (simp add: d photo_a_def empty_photo_def)
qed

section \<open>The ids of the written manifest\<close>

lemma put_content_is_merged:
  assumes "PutFile p c s msg res \<in> set (calls (publishToGitHub nt st w))"
  shows "c = merged st"
  using assms
  by (cases rule: publish_cases [of st nt w])
     (use deleteFiles_only_deletes [of nt "pendingDeletes st" w] in
      \<open>auto simp: failed_def\<close>)

text \<open>
  What holds of every publish in a session: the manifest it writes has one entry for
  each photo of the list, and no entry has an id that no photo of the list has. So a
  publish introduces no id. It can lose one, as the evaluation below shows.
\<close>

lemma publish_adds_no_id:
  assumes "reachable (st, fs)"
    and "PutFile p c s msg res \<in> set (calls (publishToGitHub nt st w))"
  shows "length c = length (photos st) \<and>
         set (map id_of c) \<subseteq> insert None (set (map id_of (photos st)))"
  using merged_adds_no_id [OF assms(1)] put_content_is_merged [OF assms(2)]
  by simp

text \<open>
  C10 fails on the code. In the session of the evaluation for C2 the photo list has the
  ids \<^verbatim>\<open>constructor\<close> and \<^verbatim>\<open>b\<close> when the publish begins. The manifest that the publish
  writes has an entry without an id (the inherited member, \<^verbatim>\<open>null\<close> in the file) in the
  place of the photo \<^verbatim>\<open>constructor\<close>, and so has the photo list afterwards.
\<close>

theorem publish_loses_listed_id:
  "map id_of (photos edited_c) = [Some ''constructor'', Some ''b''] \<and>
   written (calls (publishToGitHub accepting edited_c 0)) =
     [[Builtin ''constructor'', Rec (photo_b\<lparr>title := Some ''New''\<rparr>)]] \<and>
   map (map id_of) (written (calls (publishToGitHub accepting edited_c 0))) =
     [[None, Some ''b'']] \<and>
   map id_of (photos (final (publishToGitHub accepting edited_c 0))) = [None, Some ''b'']"
  by (simp add: publish_edited_c_accepting written_def)
     (simp add: edited_c_eq photo_c_def photo_b_def empty_photo_def)

text \<open>
  A staged object whose key no photo of the list has as its id is written in one case:
  the key is the text \<^verbatim>\<open>undefined\<close> and a record of the list has no id (such a manifest
  breaks the rule that every record has an id). \<^verbatim>\<open>state.dirty[p.id]\<close> then reads the
  key \<^verbatim>\<open>undefined\<close>.
\<close>

lemma undefined_key_is_written:
  "map id_of (photos edited_n) = [None, Some ''b''] \<and>
   dirty edited_n = [(''undefined'', empty_photo\<lparr>title := Some ''New''\<rparr>)] \<and>
   written (calls (publishToGitHub accepting edited_n 0)) =
     [[Rec (empty_photo\<lparr>title := Some ''New''\<rparr>), Rec photo_b]]"
  by (simp add: publish_edited_n_accepting written_def)
     (simp add: edited_n_eq photo_n_def photo_b_def empty_photo_def)

section \<open>Sequences of staged changes\<close>

lemma tracks_staged:
  "tracks m st \<Longrightarrow> (k, v) \<in> set (dirty st) \<Longrightarrow>
     pid v = Some k \<and> Some k \<in> set (map id_of (photos st))"
  unfolding tracks_def by blast

lemma tracks_order:
  "tracks m st \<Longrightarrow>
     map id_of (photos st) =
       filter (\<lambda>x. x \<notin> set (map id_of (pendingDeletes st))) (map pid m)"
  unfolding tracks_def by blast

lemma tracks_proto: "tracks m st \<Longrightarrow> proto st = None"
  unfolding tracks_def by blast

lemma tracksI:
  "map id_of (photos st) =
     filter (\<lambda>x. x \<notin> set (map id_of (pendingDeletes st))) (map pid m) \<Longrightarrow>
   (\<And>k v. (k, v) \<in> set (dirty st) \<Longrightarrow>
      pid v = Some k \<and> Some k \<in> set (map id_of (photos st))) \<Longrightarrow>
   proto st = None \<Longrightarrow>
   tracks m st"
  unfolding tracks_def by blast

lemma tracks_listed:
  assumes "tracks m st" and "Some i \<in> set (map id_of (photos st))"
  shows "Some i \<in> set (map pid m)"
proof -
  from assms(2) have "Some i \<in> set (filter (\<lambda>x. x \<notin> set (map id_of (pendingDeletes st)))
      (map pid m))"
    by (simp only: tracks_order [OF assms(1)])
  then show ?thesis by simp
qed

lemma resolves_listed:
  assumes "tracks m st" and "resolves i st"
  shows "Some i \<in> set (map id_of (photos st))"
proof (cases "i \<in> fst ` set (dirty st)")
  case True
  then obtain v where "(i, v) \<in> set (dirty st)" by force
  from tracks_staged [OF assms(1) this] show ?thesis by blast
next
  case False
  with assms(2) show ?thesis by (simp add: resolves_def)
qed

lemma plain_idsD: "plain_ids m \<Longrightarrow> Some i \<in> set (map pid m) \<Longrightarrow> i \<notin> set object_members"
  unfolding plain_ids_def by blast

lemma read_plain:
  assumes "k \<notin> set object_members"
  shows "read d None k = map_option Rec (map_of d k)"
  using assms by (simp add: read_def inherited_def object_members_def split: option.splits)

lemma tracks_stageEdit:
  assumes "tracks m st" and "plain_ids m" and "resolves i st"
  shows "tracks m (stageEdit i partial st)"
proof -
  let ?b = "draft_base (selectPhoto i st)"
  have listed: "Some i \<in> set (map id_of (photos st))"
    using assms(1,3) by (rule resolves_listed)
  have plain: "i \<notin> set object_members"
    using plain_idsD [OF assms(2) tracks_listed [OF assms(1) listed]] .
  then have np: "i \<noteq> ''__proto__''"
    by (auto simp: object_members_def)
  from read_plain [OF plain, of "dirty st"]
  have rd: "read (dirty st) (proto st) i = map_option Rec (map_of (dirty st) i)"
    by (simp add: tracks_proto [OF assms(1)])
  have base: "pid ?b = Some i"
  proof (cases "map_of (dirty st) i")
    case (Some v)
    then have "(i, v) \<in> set (dirty st)" by (rule map_of_SomeD)
    from tracks_staged [OF assms(1) this] have "pid v = Some i" by blast
    with Some rd show ?thesis by (simp add: draft_base_def selectPhoto_def)
  next
    case None
    from listed obtain p where p: "find_photo i (photos st) = Some p"
      by (cases "find_photo i (photos st)") (auto simp: find_photo_None)
    from find_photo_Some [OF p] have "pid (own_props p) = Some i"
      by (cases p) simp_all
    with None rd p show ?thesis by (simp add: draft_base_def selectPhoto_def)
  qed
  note st' = stageEdit_eq [OF np, of partial st]
  show ?thesis
  proof (rule tracksI)
    show "map id_of (photos (stageEdit i partial st)) =
          filter (\<lambda>x. x \<notin> set (map id_of (pendingDeletes (stageEdit i partial st))))
            (map pid m)"
      using tracks_order [OF assms(1)] by (simp add: st')
  next
    fix k v
    assume "(k, v) \<in> set (dirty (stageEdit i partial st))"
    then have "(k, v) \<in> set (AList.update i (spread ?b partial) (dirty st))"
      by (simp add: st')
    then have "(k, v) = (i, spread ?b partial) \<or> (k, v) \<in> set (dirty st)"
      by (rule set_update_cases)
    then have "pid v = Some k \<and> Some k \<in> set (map id_of (photos st))"
    proof
      assume "(k, v) = (i, spread ?b partial)"
      with base listed show ?thesis by (simp add: pid_spread)
    next
      assume "(k, v) \<in> set (dirty st)"
      from tracks_staged [OF assms(1) this] show ?thesis .
    qed
    then show "pid v = Some k \<and> Some k \<in> set (map id_of (photos (stageEdit i partial st)))"
      by (simp add: st')
  next
    show "proto (stageEdit i partial st) = None"
      using tracks_proto [OF assms(1)] by (simp add: st')
  qed
qed

lemma tracks_markForDelete:
  assumes "tracks m st" and "resolves i st"
  shows "tracks m (markForDelete True i st)"
proof -
  have listed: "Some i \<in> set (map id_of (photos st))"
    using assms by (rule resolves_listed)
  then obtain p where p: "find_photo i (photos st) = Some p"
    by (cases "find_photo i (photos st)") (auto simp: find_photo_None)
  then have pid_p: "id_of p = Some i" by (simp add: find_photo_Some)
  have st': "markForDelete True i st =
      st\<lparr>pendingDeletes := pendingDeletes st @ [p],
         photos := filter (\<lambda>q. id_of q \<noteq> Some i) (photos st),
         dirty := AList.delete i (dirty st), selected := None\<rparr>"
    using p by (simp add: markForDelete_def)
  have "map id_of (filter (\<lambda>q. id_of q \<noteq> Some i) (photos st)) =
          filter (\<lambda>x. x \<noteq> Some i) (map id_of (photos st))"
    by (simp add: filter_map comp_def)
  also have "\<dots> = filter (\<lambda>x. x \<noteq> Some i)
                     (filter (\<lambda>x. x \<notin> set (map id_of (pendingDeletes st))) (map pid m))"
    by (simp only: tracks_order [OF assms(1)])
  also have "\<dots> = filter (\<lambda>x. x \<notin> set (map id_of (pendingDeletes st @ [p]))) (map pid m)"
    by (auto simp: pid_p intro: filter_cong)
  finally have ids: "map id_of (filter (\<lambda>q. id_of q \<noteq> Some i) (photos st)) =
      filter (\<lambda>x. x \<notin> set (map id_of (pendingDeletes st @ [p]))) (map pid m)" .
  have staged: "pid v = Some k \<and>
      Some k \<in> set (map id_of (filter (\<lambda>q. id_of q \<noteq> Some i) (photos st)))"
    if "(k, v) \<in> set (AList.delete i (dirty st))" for k v
  proof -
    from delete_member [OF that] have ne: "k \<noteq> i" and mem: "(k, v) \<in> set (dirty st)"
      by simp_all
    from tracks_staged [OF assms(1) mem] ne show ?thesis by auto
  qed
  show ?thesis
    unfolding st' by (rule tracksI) (use ids staged tracks_proto [OF assms(1)] in simp_all)
qed

lemma tracks_revert:
  assumes "tracks m st"
  shows "tracks m (revert i st)"
proof (rule tracksI)
  show "map id_of (photos (revert i st)) =
      filter (\<lambda>x. x \<notin> set (map id_of (pendingDeletes (revert i st)))) (map pid m)"
    using tracks_order [OF assms] by (simp add: revert_def)
next
  fix k v
  assume "(k, v) \<in> set (dirty (revert i st))"
  then have "(k, v) \<in> set (AList.delete i (dirty st))"
    by (simp add: revert_def)
  then have "(k, v) \<in> set (dirty st)"
    by (rule delete_member [THEN conjunct2])
  from tracks_staged [OF assms this]
  show "pid v = Some k \<and> Some k \<in> set (map id_of (photos (revert i st)))"
    by (simp add: revert_def)
next
  show "proto (revert i st) = None"
    using tracks_proto [OF assms] by (simp add: revert_def)
qed

lemma tracks_step:
  "tracks m st \<Longrightarrow> plain_ids m \<Longrightarrow> op_ok x st \<Longrightarrow> tracks m (apply_op x st)"
  by (cases x) (simp_all add: tracks_stageEdit tracks_markForDelete tracks_revert)

lemma tracks_run:
  "tracks m st \<Longrightarrow> plain_ids m \<Longrightarrow> ops_ok xs st \<Longrightarrow> tracks m (run_ops xs st)"
  by (induction xs arbitrary: st) (simp_all add: tracks_step)

lemma tracks_startAdmin: "tracks m (startAdmin s m st)"
  by (simp add: tracks_def startAdmin_def comp_def)

lemma tracks_merged_ids:
  assumes "ids_defined m" and "plain_ids m" and "tracks m st"
  shows "map id_of (merged st) = map id_of (photos st)"
proof -
  have "id_of (case read (dirty st) (proto st) (key_of (id_of p)) of
               Some x \<Rightarrow> x | None \<Rightarrow> p) = id_of p"
    if p: "p \<in> set (photos st)" for p
  proof -
    from p have "id_of p \<in> set (map id_of (photos st))" by simp
    then have "id_of p \<in> set (filter (\<lambda>x. x \<notin> set (map id_of (pendingDeletes st)))
        (map pid m))"
      by (simp only: tracks_order [OF assms(3)])
    then have inm: "id_of p \<in> set (map pid m)" by simp
    with assms(1) obtain k where k: "id_of p = Some k"
      by (cases "id_of p") (auto simp: ids_defined_def)
    from plain_idsD [OF assms(2)] inm k have "k \<notin> set object_members" by simp
    from read_plain [OF this, of "dirty st"]
    have rd: "read (dirty st) (proto st) k = map_option Rec (map_of (dirty st) k)"
      by (simp add: tracks_proto [OF assms(3)])
    show ?thesis
    proof (cases "map_of (dirty st) k")
      case None
      with rd k show ?thesis by simp
    next
      case (Some v)
      then have "(k, v) \<in> set (dirty st)" by (rule map_of_SomeD)
      from tracks_staged [OF assms(3) this] have "pid v = Some k" by blast
      with Some rd k show ?thesis by simp
    qed
  qed
  then show ?thesis by (simp add: merged_def)
qed

text \<open>
  Where C8 holds. Load a manifest whose records have ids, all different and none the
  name of a member of \<^verbatim>\<open>Object.prototype\<close>, and apply any sequence of staged edits, staged
  deletions and reverts in which each edit and each deletion names an id that resolves
  at that moment. Then the ids of the merged list are the ids of the manifest together
  with the ids with a staged edit, without the ids staged for deletion; no id occurs
  twice; and they stand in the order of the manifest.
\<close>

lemma merged_ids_of_plain_manifest:
  assumes "valid_manifest m" and "plain_ids m" and "ops_ok xs (startAdmin s m st0)"
  shows "set (map id_of (merged (run_ops xs (startAdmin s m st0)))) =
           (set (map pid m) \<union> Some ` fst ` set (dirty (run_ops xs (startAdmin s m st0))))
           - set (map id_of (pendingDeletes (run_ops xs (startAdmin s m st0)))) \<and>
         distinct (map id_of (merged (run_ops xs (startAdmin s m st0)))) \<and>
         map id_of (merged (run_ops xs (startAdmin s m st0))) =
           filter (\<lambda>x. x \<notin> set (map id_of (pendingDeletes (run_ops xs (startAdmin s m st0)))))
             (map pid m)"
proof -
  let ?st = "run_ops xs (startAdmin s m st0)"
  have tr: "tracks m ?st"
    using assms(2,3) by (simp add: tracks_run tracks_startAdmin)
  have "map id_of (merged ?st) = map id_of (photos ?st)"
    using assms(1,2) tr by (intro tracks_merged_ids) (simp_all add: valid_manifest_def)
  note same = this
  have order: "map id_of (merged ?st) =
      filter (\<lambda>x. x \<notin> set (map id_of (pendingDeletes ?st))) (map pid m)"
    unfolding same by (rule tracks_order [OF tr])
  have staged: "Some ` fst ` set (dirty ?st) \<subseteq> set (map id_of (merged ?st))"
  proof
    fix x
    assume "x \<in> Some ` fst ` set (dirty ?st)"
    then obtain k v where "(k, v) \<in> set (dirty ?st)" and "x = Some k"
      by auto
    with tracks_staged [OF tr] show "x \<in> set (map id_of (merged ?st))"
      unfolding same by blast
  qed
  have "set (map id_of (merged ?st)) =
          (set (map pid m) \<union> Some ` fst ` set (dirty ?st)) - set (map id_of (pendingDeletes ?st))"
    using staged unfolding order by auto
  moreover have "distinct (map id_of (merged ?st))"
    unfolding order using assms(1) by (simp add: valid_manifest_def)
  ultimately show ?thesis
    using order by blast
qed

text \<open>
  C8 fails on the code. The manifest has the ids \<^verbatim>\<open>constructor\<close> and \<^verbatim>\<open>b\<close>, both
  defined and different. After the one staged edit of \<^verbatim>\<open>b\<close>, whose id resolves, nothing
  is staged for deletion, yet the merged list has an entry without an id in the place of
  the photo \<^verbatim>\<open>constructor\<close>: its ids are not those of the manifest. After a staged edit
  of \<^verbatim>\<open>constructor\<close> itself, whose id resolves as well, the staged object is the draft
  alone, without the id, and the merged list again has no entry with that id.
\<close>

theorem inherited_member_hides_listed_id:
  "valid_manifest [photo_c, photo_b] \<and>
   map pid [photo_c, photo_b] = [Some ''constructor'', Some ''b''] \<and>
   ops_ok [StageEdit ''b'' retitle] loaded_c \<and>
   map fst (dirty (run_ops [StageEdit ''b'' retitle] loaded_c)) = [''b''] \<and>
   pendingDeletes (run_ops [StageEdit ''b'' retitle] loaded_c) = [] \<and>
   map id_of (merged (run_ops [StageEdit ''b'' retitle] loaded_c)) = [None, Some ''b''] \<and>
   ops_ok [StageEdit ''constructor'' retitle] loaded_c \<and>
   dirty (run_ops [StageEdit ''constructor'' retitle] loaded_c) =
     [(''constructor'', empty_photo\<lparr>title := Some ''New''\<rparr>)] \<and>
   pendingDeletes (run_ops [StageEdit ''constructor'' retitle] loaded_c) = [] \<and>
   map id_of (merged (run_ops [StageEdit ''constructor'' retitle] loaded_c)) =
     [None, Some ''b'']"
proof -
  have v: "valid_manifest [photo_c, photo_b]"
    "map pid [photo_c, photo_b] = [Some ''constructor'', Some ''b'']"
    by (simp_all add: valid_manifest_def ids_defined_def photo_c_def photo_b_def
          empty_photo_def)
  have ok: "ops_ok [StageEdit ''b'' retitle] loaded_c"
    "ops_ok [StageEdit ''constructor'' retitle] loaded_c"
    by (simp_all add: resolves_def loaded_c_eq photo_c_def photo_b_def empty_photo_def)
  have b: "run_ops [StageEdit ''b'' retitle] loaded_c = edited_c"
    by (simp add: edited_c_def)
  have c: "run_ops [StageEdit ''constructor'' retitle] loaded_c =
      \<lparr>photos = [Rec photo_c, Rec photo_b],
       dirty = [(''constructor'', empty_photo\<lparr>title := Some ''New''\<rparr>)],
       proto = None, pendingDeletes = [], sha = Some ''v1'',
       selected = Some ''constructor''\<rparr>"
    by (simp add: loaded_c_eq photo_c_def photo_b_def retitle_def store_defs Let_def)
  have mc: "map id_of (merged
      \<lparr>photos = [Rec photo_c, Rec photo_b],
       dirty = [(''constructor'', empty_photo\<lparr>title := Some ''New''\<rparr>)],
       proto = None, pendingDeletes = [], sha = Some ''v1'',
       selected = Some ''constructor''\<rparr>) =
      [None, Some ''b'']"
    by (simp add: merged_def read_def inherited_def field_of_def object_members_def
          photo_c_def photo_b_def empty_photo_def)
  have mb: "map id_of (merged edited_c) = [None, Some ''b'']"
    by (simp add: merged_edited_c photo_b_def empty_photo_def)
  have db: "map fst (dirty edited_c) = [''b'']" "pendingDeletes edited_c = []"
    by (simp_all add: edited_c_eq)
  from v ok mb db mc show ?thesis
    unfolding b c by simp
qed

section \<open>Running the batch processor again\<close>

lemma pid_entry: "pid (entry i f pr) = Some i"
  by (simp add: entry_def Let_def)

text \<open>The loop only appends: it keeps the entries and the known ids it is given.\<close>

lemma process_files_grows:
  "\<exists>es. newEntries (process_files develop files sc) = newEntries sc @ es \<and>
        knownIds (process_files develop files sc) = knownIds sc @ map pid es"
proof (induction files arbitrary: sc)
  case Nil
  then show ?case by simp
next
  case (Cons f files)
  show ?case
  proof (cases "Some (slugify f) \<in> set (knownIds sc)")
    case True
    with Cons [of "sc\<lparr>skipped := skipped sc + 1\<rparr>"] show ?thesis
      by (simp add: Let_def)
  next
    case False
    show ?thesis
    proof (cases "develop f")
      case None
      with False Cons [of sc] show ?thesis
        by (simp add: Let_def)
    next
      case (Some pr)
      let ?sc = "sc\<lparr>newEntries := newEntries sc @ [entry (slugify f) f pr],
                     knownIds := knownIds sc @ [Some (slugify f)],
                     processed := processed sc + 1\<rparr>"
      from Cons [of ?sc] obtain es where
        "newEntries (process_files develop files ?sc) = newEntries ?sc @ es"
        "knownIds (process_files develop files ?sc) = knownIds ?sc @ map pid es"
        by blast
      with False Some show ?thesis
        by (intro exI [of _ "entry (slugify f) f pr # es"]) (simp add: Let_def pid_entry)
    qed
  qed
qed

text \<open>No entry is added under an id that is known, and no id is added twice.\<close>

lemma process_files_fresh:
  assumes "distinct (map pid (newEntries sc))"
    and "set (map pid (newEntries sc)) \<subseteq> set (knownIds sc)"
    and "set (map pid (newEntries sc)) \<inter> K = {}"
    and "K \<subseteq> set (knownIds sc)"
  shows "distinct (map pid (newEntries (process_files develop files sc))) \<and>
         set (map pid (newEntries (process_files develop files sc))) \<inter> K = {}"
  using assms
proof (induction files arbitrary: sc)
  case Nil
  then show ?case by simp
next
  case (Cons f files)
  show ?case
  proof (cases "Some (slugify f) \<in> set (knownIds sc)")
    case True
    with Cons.IH [of "sc\<lparr>skipped := skipped sc + 1\<rparr>"] Cons.prems show ?thesis
      by (simp add: Let_def)
  next
    case False
    show ?thesis
    proof (cases "develop f")
      case None
      with False Cons.IH [of sc] Cons.prems show ?thesis
        by (simp add: Let_def)
    next
      case (Some pr)
      let ?sc = "sc\<lparr>newEntries := newEntries sc @ [entry (slugify f) f pr],
                     knownIds := knownIds sc @ [Some (slugify f)],
                     processed := processed sc + 1\<rparr>"
      have "distinct (map pid (newEntries ?sc))"
        using Cons.prems False by (auto simp: pid_entry)
      moreover have "set (map pid (newEntries ?sc)) \<subseteq> set (knownIds ?sc)"
        using Cons.prems by (auto simp: pid_entry)
      moreover have "set (map pid (newEntries ?sc)) \<inter> K = {}"
        using Cons.prems False by (auto simp: pid_entry)
      moreover have "K \<subseteq> set (knownIds ?sc)"
        using Cons.prems by auto
      ultimately have
        "distinct (map pid (newEntries (process_files develop files ?sc))) \<and>
         set (map pid (newEntries (process_files develop files ?sc))) \<inter> K = {}"
        by (rule Cons.IH)
      with False Some show ?thesis
        by (simp add: Let_def)
    qed
  qed
qed

text \<open>After the loop every file is known or is one the processor cannot read.\<close>

lemma process_files_covers:
  "f \<in> set files \<Longrightarrow>
     Some (slugify f) \<in> set (knownIds (process_files develop files sc)) \<or> develop f = None"
proof (induction files arbitrary: sc)
  case Nil
  then show ?case by simp
next
  case (Cons g files)
  have keeps: "set (knownIds sc') \<subseteq> set (knownIds (process_files develop files sc'))" for sc'
    using process_files_grows [of develop files sc'] by auto
  show ?case
  proof (cases "f = g")
    case True
    show ?thesis
    proof (cases "Some (slugify g) \<in> set (knownIds sc)")
      case known: True
      with keeps [of "sc\<lparr>skipped := skipped sc + 1\<rparr>"] True show ?thesis
        by (auto simp: Let_def)
    next
      case False
      show ?thesis
      proof (cases "develop g")
        case None
        with True show ?thesis by simp
      next
        case (Some pr)
        with False True
          keeps [of "sc\<lparr>newEntries := newEntries sc @ [entry (slugify g) g pr],
                        knownIds := knownIds sc @ [Some (slugify g)],
                        processed := processed sc + 1\<rparr>"]
        show ?thesis by (auto simp: Let_def)
      qed
    qed
  next
    case False
    with Cons.prems have "f \<in> set files" by simp
    from Cons.IH [OF this] show ?thesis
      by (auto simp: Let_def split: option.splits)
  qed
qed

text \<open>Over files that are all known or unreadable the loop adds nothing.\<close>

lemma process_files_idle:
  "\<forall>f \<in> set files. Some (slugify f) \<in> set (knownIds sc) \<or> develop f = None \<Longrightarrow>
     newEntries (process_files develop files sc) = newEntries sc \<and>
     knownIds (process_files develop files sc) = knownIds sc"
proof (induction files arbitrary: sc)
  case Nil
  then show ?case by simp
next
  case (Cons f files)
  from Cons.prems Cons.IH [of sc] Cons.IH [of "sc\<lparr>skipped := skipped sc + 1\<rparr>"]
  show ?case
    by (auto simp: Let_def)
qed

lemma process_photos_added:
  "process_photos develop listing ps = ps @ added develop listing ps"
  by (simp add: process_photos_def added_def Let_def)

lemma added_again:
  "added develop listing (ps @ added develop listing ps) = []"
proof -
  let ?files = "filter image_file listing"
  let ?sc0 = "\<lparr>knownIds = map pid ps, newEntries = [], processed = 0, skipped = 0\<rparr>"
  let ?sc1 = "\<lparr>knownIds = map pid (ps @ added develop listing ps), newEntries = [],
               processed = 0, skipped = 0\<rparr>"
  from process_files_grows [of develop ?files ?sc0]
  have known: "knownIds (process_files develop ?files ?sc0) =
                 map pid ps @ map pid (added develop listing ps)"
    by (auto simp: added_def)
  have cov: "Some (slugify f) \<in> set (knownIds ?sc1) \<or> develop f = None"
    if "f \<in> set ?files" for f
    using process_files_covers [OF that, of develop ?sc0] known by auto
  have "\<forall>f \<in> set ?files. Some (slugify f) \<in> set (knownIds ?sc1) \<or> develop f = None"
    by (intro ballI) (rule cov)
  then have "newEntries (process_files develop ?files ?sc1) = newEntries ?sc1"
    by (rule process_files_idle [THEN conjunct1])
  then show ?thesis
    by (simp add: added_def)
qed

text \<open>
  C9. One run of the processor appends its new entries to the photos of the manifest. No
  new entry has an id that the manifest had (so a file whose slug is an id of the
  manifest gets no entry), and no two new entries have the same id. Running the
  processor again over the same directory, with files that read as before, leaves the
  manifest as the first run left it; and however the files read the second time, the
  entries of both runs together have different ids.
\<close>

theorem processor_is_idempotent:
  "process_photos develop listing ps = ps @ added develop listing ps \<and>
   (\<forall>e \<in> set (added develop listing ps). pid e \<notin> set (map pid ps)) \<and>
   (\<forall>f \<in> set listing.
      Some (slugify f) \<in> set (map pid ps) \<longrightarrow>
        Some (slugify f) \<notin> set (map pid (added develop listing ps))) \<and>
   distinct (map pid (added develop listing ps)) \<and>
   process_photos develop listing (process_photos develop listing ps) =
     process_photos develop listing ps \<and>
   distinct (map pid (added develop listing ps @
                      added develop' listing (process_photos develop listing ps)))"
proof -
  let ?sc0 = "\<lparr>knownIds = map pid ps, newEntries = [], processed = 0, skipped = 0\<rparr>"
  have fresh: "distinct (map pid (added develop listing ps)) \<and>
      set (map pid (added develop listing ps)) \<inter> set (map pid ps) = {}"
    unfolding added_def
    by (rule process_files_fresh) simp_all
  then have new: "\<forall>e \<in> set (added develop listing ps). pid e \<notin> set (map pid ps)"
    by auto
  have again: "process_photos develop listing (process_photos develop listing ps) =
      process_photos develop listing ps"
    by (simp add: process_photos_added added_again)
  have second: "distinct (map pid (added develop' listing (ps @ added develop listing ps))) \<and>
      set (map pid (added develop' listing (ps @ added develop listing ps))) \<inter>
        set (map pid (ps @ added develop listing ps)) = {}"
    unfolding added_def [of develop']
    by (rule process_files_fresh) simp_all
  with fresh have both: "distinct (map pid (added develop listing ps @
      added develop' listing (process_photos develop listing ps)))"
    unfolding process_photos_added by auto
  have listed: "\<forall>f \<in> set listing.
      Some (slugify f) \<in> set (map pid ps) \<longrightarrow>
        Some (slugify f) \<notin> set (map pid (added develop listing ps))"
    using fresh by auto
  from fresh new again both listed show ?thesis
    unfolding process_photos_added by blast
qed

lemma slugs:
  "slugify ''IMG 01.JPG'' = ''img-01''" "slugify ''img-01.png'' = ''img-01''"
  "slugify ''broken.jpg'' = ''broken''" "slugify ''Sunset.jpeg'' = ''sunset''"
  by code_simp+

lemma image_files: "filter image_file uploads = [''IMG 01.JPG'', ''img-01.png'', ''broken.jpg'', ''Sunset.jpeg'']"
  unfolding uploads_def by code_simp

theorem processor_is_idempotent_witness:
  "map pid (added reads uploads [photo_a\<lparr>pid := Some ''sunset''\<rparr>]) = [Some ''img-01''] \<and>
   Some (slugify ''Sunset.jpeg'') \<in> set (map pid [photo_a\<lparr>pid := Some ''sunset''\<rparr>]) \<and>
   Some (slugify ''Sunset.jpeg'') \<notin> set (map pid (added reads uploads [photo_a\<lparr>pid := Some ''sunset''\<rparr>])) \<and>
   process_photos reads uploads (process_photos reads uploads [photo_a\<lparr>pid := Some ''sunset''\<rparr>]) =
     process_photos reads uploads [photo_a\<lparr>pid := Some ''sunset''\<rparr>]"
proof -
  have a: "map pid (added reads uploads [photo_a\<lparr>pid := Some ''sunset''\<rparr>]) = [Some ''img-01'']"
    by (simp add: added_def image_files slugs reads_def pid_entry Let_def photo_a_def)
  have f: "''Sunset.jpeg'' \<in> set uploads"
    by (simp add: uploads_def)
  have k: "Some (slugify ''Sunset.jpeg'') \<in> set (map pid [photo_a\<lparr>pid := Some ''sunset''\<rparr>])"
    by (simp add: slugs)
  from processor_is_idempotent [of reads uploads "[photo_a\<lparr>pid := Some ''sunset''\<rparr>]"] a f k
  show ?thesis by blast
qed

end
